theory Spec2Isabelle
  imports Complex_Main
begin

unbundle bit_operations_syntax

text \<open>
  A shallow embedding of the bandit library: the KT estimator and the active partition
  tree weighting model (\<open>ptw.hpp\<close>, \<open>ptw.cpp\<close>), the numeric helpers (\<open>common.hpp\<close>),
  the policies built on the model (\<open>ts.cpp\<close>), the UCB family (\<open>ucb.cpp\<close>,
  \<open>kl_ucb.cpp\<close>, \<open>sliding_ucb.cpp\<close>), the MALG scheduler (\<open>master.cpp\<close>) and the
  Bernoulli environment (\<open>bandits.cpp\<close>). The definitions come first, in the order of
  their dependencies; the proofs follow.
\<close>

section \<open>Errors and checked accesses\<close>

text \<open>
  The C++ sources signal contract violations with \<open>assert\<close> and \<open>die_with_error\<close>, and
  leave a read outside a vector or array, a null pointer and an \<open>int\<close> shift out of
  range undefined. All are results of the model: every function that can run into one
  returns \<open>error + 'a\<close>, with \<open>Inl\<close> for the failure. Assertions are active, as in a debug
  build.

  Values of type \<open>size_t\<close> and \<open>uint64_t\<close> are modelled by \<open>nat\<close>: the counters of the
  program grow by one per call and stay far below \<open>2 ^ 64\<close>. Values of type \<open>double\<close> that
  the program keeps finite are modelled by \<open>real\<close>: arithmetic is exact, and rounding is
  not part of the model. Where the range of a double or a special value decides the
  result, the value is a \<open>dbl\<close> (below).

  A random generator is not part of any state: each draw is an argument of the function
  that makes it, so a statement about all arguments is a statement about all outcomes.
\<close>

datatype error = AssertFailed | OutOfRange | UndefinedShift | NullPointer | Exit

definition bindE :: "error + 'a \<Rightarrow> ('a \<Rightarrow> error + 'b) \<Rightarrow> error + 'b" where
  "bindE m f = (case m of Inl e \<Rightarrow> Inl e | Inr x \<Rightarrow> f x)"

definition nth_chk :: "'a list \<Rightarrow> nat \<Rightarrow> error + 'a" where
  "nth_chk xs i = (if i < length xs then Inr (xs ! i) else Inl OutOfRange)"

definition upd_chk :: "'a list \<Rightarrow> nat \<Rightarrow> 'a \<Rightarrow> error + 'a list" where
  "upd_chk xs i v = (if i < length xs then Inr (xs[i := v]) else Inl OutOfRange)"

fun foldE :: "('a \<Rightarrow> 's \<Rightarrow> error + 's) \<Rightarrow> 'a list \<Rightarrow> 's \<Rightarrow> error + 's" where
  "foldE f [] s = Inr s"
| "foldE f (x # xs) s = (case f x s of Inl e \<Rightarrow> Inl e | Inr s' \<Rightarrow> foldE f xs s')"

section \<open>Doubles with infinities and NaN\<close>

text \<open>
  Where an infinity, a NaN or the range of a double decides a result, a \<open>double\<close> is a \<open>dbl\<close>: a
  real number, an infinity or NaN, with the IEEE rules for the special values. The
  comparisons are false on NaN. Zero has no sign (\<open>x / 0\<close> is taken at \<open>+0\<close>), and the
  finite part is exact.
\<close>

datatype dbl = Fin real | PInf | NInf | NaN

fun dlt :: "dbl \<Rightarrow> dbl \<Rightarrow> bool" where
  "dlt (Fin x) (Fin y) = (x < y)"
| "dlt (Fin x) PInf = True"
| "dlt NInf (Fin y) = True"
| "dlt NInf PInf = True"
| "dlt _ _ = False"

definition dgt :: "dbl \<Rightarrow> dbl \<Rightarrow> bool" where
  "dgt a b = dlt b a"

fun deq :: "dbl \<Rightarrow> dbl \<Rightarrow> bool" where
  "deq (Fin x) (Fin y) = (x = y)"
| "deq PInf PInf = True"
| "deq NInf NInf = True"
| "deq _ _ = False"

fun dneg :: "dbl \<Rightarrow> dbl" where
  "dneg (Fin x) = Fin (- x)"
| "dneg PInf = NInf"
| "dneg NInf = PInf"
| "dneg NaN = NaN"

fun dadd :: "dbl \<Rightarrow> dbl \<Rightarrow> dbl" where
  "dadd (Fin x) (Fin y) = Fin (x + y)"
| "dadd NaN _ = NaN"
| "dadd _ NaN = NaN"
| "dadd PInf NInf = NaN"
| "dadd NInf PInf = NaN"
| "dadd PInf _ = PInf"
| "dadd _ PInf = PInf"
| "dadd NInf _ = NInf"
| "dadd _ NInf = NInf"

definition dsub :: "dbl \<Rightarrow> dbl \<Rightarrow> dbl" where
  "dsub a b = dadd a (dneg b)"

definition inf_signed :: "bool \<Rightarrow> dbl" where
  "inf_signed positive = (if positive then PInf else NInf)"

fun dmul :: "dbl \<Rightarrow> dbl \<Rightarrow> dbl" where
  "dmul (Fin x) (Fin y) = Fin (x * y)"
| "dmul NaN _ = NaN"
| "dmul _ NaN = NaN"
| "dmul (Fin x) PInf = (if x = 0 then NaN else inf_signed (0 < x))"
| "dmul (Fin x) NInf = (if x = 0 then NaN else inf_signed (x < 0))"
| "dmul PInf (Fin y) = (if y = 0 then NaN else inf_signed (0 < y))"
| "dmul NInf (Fin y) = (if y = 0 then NaN else inf_signed (y < 0))"
| "dmul PInf PInf = PInf"
| "dmul NInf NInf = PInf"
| "dmul PInf NInf = NInf"
| "dmul NInf PInf = NInf"

fun ddiv :: "dbl \<Rightarrow> dbl \<Rightarrow> dbl" where
  "ddiv (Fin x) (Fin y) =
     (if y \<noteq> 0 then Fin (x / y) else if x = 0 then NaN else inf_signed (0 < x))"
| "ddiv NaN _ = NaN"
| "ddiv _ NaN = NaN"
| "ddiv (Fin x) _ = Fin 0"
| "ddiv PInf (Fin y) = inf_signed (0 \<le> y)"
| "ddiv NInf (Fin y) = inf_signed (y < 0)"
| "ddiv _ _ = NaN"

fun dlog :: "dbl \<Rightarrow> dbl" where
  "dlog (Fin x) = (if 0 < x then Fin (ln x) else if x = 0 then NInf else NaN)"
| "dlog PInf = PInf"
| "dlog _ = NaN"

fun dsqrt :: "dbl \<Rightarrow> dbl" where
  "dsqrt (Fin x) = (if 0 \<le> x then Fin (sqrt x) else NaN)"
| "dsqrt PInf = PInf"
| "dsqrt _ = NaN"

text \<open>
  \<open>a <= b\<close> and \<open>a >= b\<close> on doubles, and \<open>std::min (a, b)\<close>, which is
  \<open>(b < a) ? b : a\<close>: it returns \<open>a\<close> when \<open>b\<close> is NaN.
\<close>

definition dle :: "dbl \<Rightarrow> dbl \<Rightarrow> bool" where
  "dle a b \<longleftrightarrow> dlt a b \<or> deq a b"

definition dge :: "dbl \<Rightarrow> dbl \<Rightarrow> bool" where
  "dge a b = dle b a"

definition dmin :: "dbl \<Rightarrow> dbl \<Rightarrow> dbl" where
  "dmin a b = (if dlt b a then b else a)"

text \<open>
  \<open>std::pow (2.0, x)\<close> with the range of a double: from \<open>x = 1024\<close> on the power exceeds
  every finite double and the result is plus infinity; up to \<open>x = - 1075\<close> it is at most
  half the smallest positive double \<open>2 ^ - 1074\<close> and rounds to 0; in between it is taken
  exact.
\<close>

definition dpow2 :: "real \<Rightarrow> dbl" where
  "dpow2 x = (if 1024 \<le> x then PInf else if x \<le> - 1075 then Fin 0 else Fin (2 powr x))"

section \<open>Numeric helpers (common.hpp)\<close>

text \<open>\<open>std::log1p(z)\<close> is \<open>ln (1 + z)\<close>.\<close>

definition logAdd :: "real \<Rightarrow> real \<Rightarrow> real" where
  "logAdd log_x log_y =
     (let (lx, ly) = (if log_x > log_y then (log_y, log_x) else (log_x, log_y));
          rval = ly - lx;
          rval = (if rval < 100 then ln (1 + exp rval) else rval)
      in rval + lx)"

text \<open>\<open>bernoulliRelEntropy\<close>, branch by branch in the order of the source.\<close>

definition bernoulliRelEntropy :: "dbl \<Rightarrow> dbl \<Rightarrow> dbl" where
  "bernoulliRelEntropy p q =
     (if dlt p (Fin 0) \<or> dlt q (Fin 0) \<or> dgt p (Fin 1) \<or> dgt q (Fin 1) then NaN
      else if deq p (Fin 0) \<and> deq q (Fin 0) then Fin 0
      else if deq p (Fin 1) \<and> deq q (Fin 1) then Fin 0
      else if deq p (Fin 0) then dneg (dlog (dsub (Fin 1) q))
      else if deq p (Fin 1) then dneg (dlog q)
      else if deq q (Fin 0) \<or> deq q (Fin 1) then PInf
      else dadd (dmul p (dlog (ddiv p q)))
             (dmul (dsub (Fin 1) p) (dlog (ddiv (dsub (Fin 1) p) (dsub (Fin 1) q)))))"



section \<open>KT estimator (ptw.hpp)\<close>

text \<open>
  \<open>m_counts\<close> is the array \<open>uint64_t m_counts[2]\<close>, here the pair of its two cells. The
  symbol \<open>b\<close> is an \<open>int\<close> used as the index; an index other than 0 or 1 is out of range.
\<close>

record KTEstimator =
  m_log_kt :: real
  m_counts :: "nat \<times> nat"

definition KT_Alpha :: real where
  "KT_Alpha = 0.5"

definition KT_Alpha2 :: real where
  "KT_Alpha2 = KT_Alpha + KT_Alpha"

definition KTEstimator_init :: KTEstimator where
  "KTEstimator_init = \<lparr>m_log_kt = 0, m_counts = (0, 0)\<rparr>"

definition counts_get :: "nat \<times> nat \<Rightarrow> int \<Rightarrow> error + nat" where
  "counts_get c b = (if b = 0 then Inr (fst c) else if b = 1 then Inr (snd c) else Inl OutOfRange)"

definition counts_incr :: "nat \<times> nat \<Rightarrow> int \<Rightarrow> error + nat \<times> nat" where
  "counts_incr c b =
     (if b = 0 then Inr (fst c + 1, snd c)
      else if b = 1 then Inr (fst c, snd c + 1)
      else Inl OutOfRange)"

definition KT_prob :: "KTEstimator \<Rightarrow> int \<Rightarrow> error + real" where
  "KT_prob e b =
     (case counts_get (m_counts e) b of
        Inl x \<Rightarrow> Inl x
      | Inr cb \<Rightarrow>
          (let num = real cb + KT_Alpha;
               den = real (fst (m_counts e) + snd (m_counts e)) + KT_Alpha2
           in Inr (num / den)))"

definition KT_logMarginal :: "KTEstimator \<Rightarrow> real" where
  "KT_logMarginal e = m_log_kt e"

definition KT_update :: "KTEstimator \<Rightarrow> int \<Rightarrow> error + KTEstimator" where
  "KT_update e b =
     (case KT_prob e b of
        Inl x \<Rightarrow> Inl x
      | Inr p \<Rightarrow>
          (case counts_incr (m_counts e) b of
             Inl x \<Rightarrow> Inl x
           | Inr c \<Rightarrow> Inr (e\<lparr>m_log_kt := m_log_kt e + ln p, m_counts := c\<rparr>)))"

definition KT_posterior :: "KTEstimator \<Rightarrow> real \<times> real" where
  "KT_posterior e =
     (let alpha = KT_Alpha + real (snd (m_counts e));
          beta = KT_Alpha + real (fst (m_counts e))
      in (alpha, beta))"

text \<open>Feeding a sequence of symbols to \<open>update\<close>, one call per symbol.\<close>

definition KT_run :: "KTEstimator \<Rightarrow> int list \<Rightarrow> error + KTEstimator" where
  "KT_run e bs = foldE (\<lambda>b e'. KT_update e' b) bs e"

subsection \<open>The predictor as the specification words it\<close>

text \<open>
  \<open>count_bit b past\<close> is the count \<open>c\<^sub>b\<close> of the symbol \<open>b\<close> in the symbols seen so far;
  \<open>kt_pred past b\<close> is \<open>p(b | past) = (c\<^sub>b + 1/2) / (c\<^sub>0 + c\<^sub>1 + 1)\<close>; \<open>kt_seq_log bs\<close> is the
  sum of \<open>log p(b\<^sub>i | b\<^sub>0 \<dots> b\<^sub>i\<^sub>-\<^sub>1)\<close> over the sequence.
\<close>

definition count_bit :: "int \<Rightarrow> int list \<Rightarrow> nat" where
  "count_bit b past = length (filter (\<lambda>x. x = b) past)"

definition kt_pred :: "int list \<Rightarrow> int \<Rightarrow> real" where
  "kt_pred past b = (real (count_bit b past) + 1 / 2) / (real (count_bit 0 past) + real (count_bit 1 past) + 1)"

definition kt_seq_log :: "int list \<Rightarrow> real" where
  "kt_seq_log bs = (\<Sum>i < length bs. ln (kt_pred (take i bs) (bs ! i)))"

section \<open>Active partition tree weighting (ptw.hpp, ptw.cpp)\<close>

record ActivePTWNode_t =
  m_model :: "KTEstimator list"
  m_log_weighted :: real
  m_log_buf :: real

definition ActivePTWNode_init :: "nat \<Rightarrow> ActivePTWNode_t" where
  "ActivePTWNode_init arms =
     \<lparr>m_model = replicate arms KTEstimator_init, m_log_weighted = 0, m_log_buf = 0\<rparr>"

definition node_logMarginal :: "ActivePTWNode_t \<Rightarrow> real" where
  "node_logMarginal n = foldl (\<lambda>rval e. rval + KT_logMarginal e) 0 (m_model n)"

definition node_prob :: "ActivePTWNode_t \<Rightarrow> int \<Rightarrow> nat \<Rightarrow> error + real" where
  "node_prob n r k = bindE (nth_chk (m_model n) k) (\<lambda>e. KT_prob e r)"

text \<open>\<open>m_nodes[idx].m_model[k].update(r)\<close>\<close>

definition node_update :: "ActivePTWNode_t \<Rightarrow> int \<Rightarrow> nat \<Rightarrow> error + ActivePTWNode_t" where
  "node_update n r k =
     bindE (nth_chk (m_model n) k) (\<lambda>e.
     bindE (KT_update e r) (\<lambda>e'.
     Inr (n\<lparr>m_model := (m_model n)[k := e']\<rparr>)))"

record ActivePTW =
  m_index :: nat
  m_nodes :: "ActivePTWNode_t list"
  m_depth :: nat
  m_arms :: nat
  LogStopWeight :: real
  LogSplitWeight :: real

definition ActivePTW_init :: "nat \<Rightarrow> nat \<Rightarrow> ActivePTW" where
  "ActivePTW_init depth arms =
     (let a = real arms;
          x = (a - 1) / a
      in \<lparr>m_index = 0,
          m_nodes = replicate (depth + 1) (ActivePTWNode_init arms),
          m_depth = depth,
          m_arms = arms,
          LogStopWeight = ln x,
          LogSplitWeight = ln (1 - x)\<rparr>)"

text \<open>
  \<open>mscb\<close>: the loop runs \<open>m_depth\<close> times at most; \<open>mscb_loop t n c cnt\<close> is the loop with
  \<open>n\<close> iterations left. The decrement of \<open>c\<close> after the last iteration is never read.
\<close>

fun mscb_loop :: "nat \<Rightarrow> nat \<Rightarrow> nat \<Rightarrow> nat \<Rightarrow> nat" where
  "mscb_loop t 0 c cnt = cnt"
| "mscb_loop t (Suc n) c cnt =
     (let tm1 = t - 1; tm2 = t - 2; mask = push_bit c (1::nat)
      in if (tm1 AND mask) \<noteq> (tm2 AND mask) then cnt
         else mscb_loop t n (c - 1) (cnt + 1))"

definition mscb :: "nat \<Rightarrow> nat \<Rightarrow> nat" where
  "mscb depth t = (if t = 1 then 0 else mscb_loop t depth (depth - 1) 0)"

text \<open>
  The bottom level of \<open>update\<close>: the KT estimator of arm \<open>k\<close> at level \<open>m_depth\<close> absorbs
  \<open>r\<close>, and the weighted probability of the level is its marginal.
\<close>

definition update_bottom ::
  "int \<Rightarrow> nat \<Rightarrow> nat \<Rightarrow> ActivePTWNode_t list \<Rightarrow> error + ActivePTWNode_t list" where
  "update_bottom r k depth ns =
     bindE (nth_chk ns depth) (\<lambda>n.
     bindE (node_update n r k) (\<lambda>n1.
     Inr (ns[depth := n1\<lparr>m_log_weighted := node_logMarginal n1\<rparr>])))"

text \<open>The body of the bottom-up loop at level \<open>idx = m_depth - i\<close>.\<close>

definition update_level ::
  "real \<Rightarrow> real \<Rightarrow> int \<Rightarrow> nat \<Rightarrow> nat \<Rightarrow> ActivePTWNode_t list \<Rightarrow> error + ActivePTWNode_t list" where
  "update_level LogStop LogSplit r k idx ns =
     bindE (nth_chk ns idx) (\<lambda>n.
     bindE (node_update n r k) (\<lambda>n1.
     bindE (nth_chk ns (idx + 1)) (\<lambda>child.
       (let lhs = LogStop + node_logMarginal n1;
            rhs = LogSplit;
            rhs = rhs + m_log_weighted child;
            rhs = rhs + m_log_buf n1
        in Inr (ns[idx := n1\<lparr>m_log_weighted := logAdd lhs rhs\<rparr>])))))"

text \<open>
  The loop \<open>for (i = 1; i <= m_depth; i++)\<close> visits \<open>idx = m_depth - i\<close>, that is the
  levels \<open>m_depth - 1\<close> down to 0: \<open>update_loop \<dots> (Suc idx)\<close> visits level \<open>idx\<close> and
  then the levels below it.
\<close>

fun update_loop ::
  "real \<Rightarrow> real \<Rightarrow> int \<Rightarrow> nat \<Rightarrow> nat \<Rightarrow> ActivePTWNode_t list \<Rightarrow> error + ActivePTWNode_t list" where
  "update_loop LogStop LogSplit r k 0 ns = Inr ns"
| "update_loop LogStop LogSplit r k (Suc idx) ns =
     bindE (update_level LogStop LogSplit r k idx ns) (update_loop LogStop LogSplit r k idx)"

text \<open>
  \<open>update\<close>. The bound of the assertion is the \<open>int\<close> expression \<open>1 << m_depth\<close>: it is
  \<open>2 ^ m_depth\<close> for \<open>m_depth \<le> 30\<close>, and a larger shift leaves the range of \<open>int\<close>
  (\<open>UndefinedShift\<close>).
\<close>

definition ActivePTW_update :: "ActivePTW \<Rightarrow> int \<Rightarrow> nat \<Rightarrow> error + ActivePTW" where
  "ActivePTW_update st r k =
     (if 30 < m_depth st then Inl UndefinedShift
      else if \<not> m_index st < 2 ^ m_depth st then Inl AssertFailed
      else
        (let i = mscb (m_depth st) (m_index st + 1) in
         bindE (nth_chk (m_nodes st) (i + 1)) (\<lambda>child.
         bindE (nth_chk (m_nodes st) i) (\<lambda>n.
         bindE (foldE (\<lambda>j ns. upd_chk ns j (ActivePTWNode_init (m_arms st)))
                  [i + 1 ..< m_depth st + 1]
                  ((m_nodes st)[i := n\<lparr>m_log_buf := m_log_weighted child\<rparr>])) (\<lambda>ns.
         bindE (update_bottom r k (m_depth st) ns) (\<lambda>ns.
         bindE (update_loop (LogStopWeight st) (LogSplitWeight st) r k (m_depth st) ns) (\<lambda>ns.
         Inr (st\<lparr>m_nodes := ns, m_index := m_index st + 1\<rparr>))))))))"

text \<open>
  \<open>levelPosterior\<close>: one step of the loop over the levels, on the pair of the mass left
  and the vector built so far, with both assertions of the body.
\<close>

definition levelPosterior_step :: "ActivePTW \<Rightarrow> nat \<Rightarrow> real \<times> real list \<Rightarrow> error + real \<times> real list" where
  "levelPosterior_step st i s =
     (case s of (posterior_mass_left, dest) \<Rightarrow>
        bindE (nth_chk (m_nodes st) i) (\<lambda>n.
          (let x = LogStopWeight st + node_logMarginal n;
               x = x - m_log_weighted n;
               stop_post = exp x;
               dest = dest @ [posterior_mass_left * stop_post];
               posterior_mass_left = posterior_mass_left * (1 - stop_post)
           in if \<not> (last dest \<ge> 0 \<and> last dest \<le> 1) then Inl AssertFailed
              else
                (let posterior_mass_left = max posterior_mass_left 0
                 in if \<not> (posterior_mass_left \<ge> 0 \<and> posterior_mass_left \<le> 1) then Inl AssertFailed
                    else Inr (posterior_mass_left, dest)))))"

definition levelPosterior :: "ActivePTW \<Rightarrow> error + real list" where
  "levelPosterior st =
     bindE (foldE (levelPosterior_step st) [0 ..< m_depth st + 1] (1, [])) (\<lambda>s.
       if length (snd s) \<noteq> m_depth st + 1 then Inl AssertFailed else Inr (snd s))"

definition ActivePTW_logMarginal :: "ActivePTW \<Rightarrow> error + real" where
  "ActivePTW_logMarginal st = bindE (nth_chk (m_nodes st) 0) (\<lambda>n. Inr (m_log_weighted n))"

definition ActivePTW_posterior :: "ActivePTW \<Rightarrow> nat \<Rightarrow> nat \<Rightarrow> error + real \<times> real" where
  "ActivePTW_posterior st level arm_index =
     bindE (nth_chk (m_nodes st) level) (\<lambda>n.
     bindE (nth_chk (m_model n) arm_index) (\<lambda>e. Inr (KT_posterior e)))"

text \<open>
  \<open>prob\<close>: the predictive probability of each level, weighted by \<open>levelPosterior\<close>
  (\<open>std::inner_product\<close>).
\<close>

definition ActivePTW_prob :: "ActivePTW \<Rightarrow> int \<Rightarrow> nat \<Rightarrow> error + real" where
  "ActivePTW_prob st r k =
     bindE (levelPosterior st) (\<lambda>post.
     bindE (foldE (\<lambda>i probs. bindE (nth_chk (m_nodes st) i) (\<lambda>n.
                     bindE (node_prob n r k) (\<lambda>p. Inr (probs @ [p]))))
              [0 ..< length post] []) (\<lambda>probs.
     Inr (foldl (\<lambda>acc (x, y). acc + x * y) 0 (zip post probs))))"

text \<open>A run of \<open>update\<close> over observations \<open>(r, k)\<close>: reward \<open>r\<close> of arm \<open>k\<close>.\<close>

definition ActivePTW_run :: "ActivePTW \<Rightarrow> (int \<times> nat) list \<Rightarrow> error + ActivePTW" where
  "ActivePTW_run st obs = foldE (\<lambda>(r, k) st'. ActivePTW_update st' r k) obs st"

subsection \<open>Well-formed models and the staged nodes of an update\<close>

text \<open>
  The constructor builds \<open>m_depth + 1\<close> nodes of \<open>m_arms\<close> estimators each, and \<open>update\<close>
  keeps both. \<open>update\<close> reads node \<open>mscb + 1\<close>, so a model has depth 1 at least, and the
  \<open>int\<close> shift of its assertion bounds the depth by 30.

  \<open>staged st j\<close> is node \<open>j\<close> after the first two steps of \<open>update\<close>, with
  \<open>i = mscb (m_index + 1)\<close>: node \<open>i\<close> has taken the weighted probability of node
  \<open>i + 1\<close> into its buffer, the nodes below \<open>i\<close> are fresh, the nodes above are untouched.
\<close>

definition wf_ptw :: "ActivePTW \<Rightarrow> bool" where
  "wf_ptw st \<longleftrightarrow>
     1 \<le> m_depth st \<and> m_depth st \<le> 30
     \<and> length (m_nodes st) = m_depth st + 1
     \<and> (\<forall>n \<in> set (m_nodes st). length (m_model n) = m_arms st)"

definition staged :: "ActivePTW \<Rightarrow> nat \<Rightarrow> ActivePTWNode_t" where
  "staged st j =
     (let i = mscb (m_depth st) (m_index st + 1)
      in if j < i then m_nodes st ! j
         else if j = i then (m_nodes st ! i)\<lparr>m_log_buf := m_log_weighted (m_nodes st ! (i + 1))\<rparr>
         else ActivePTWNode_init (m_arms st))"

text \<open>
  The invariant behind \<open>levelPosterior\<close>: at every node the stop branch weighs no more
  than the whole node.
\<close>

definition ptw_inv :: "ActivePTW \<Rightarrow> bool" where
  "ptw_inv st \<longleftrightarrow>
     (\<forall>n \<in> set (m_nodes st). LogStopWeight st + node_logMarginal n \<le> m_log_weighted n)"

section \<open>Policies over the model (ts.hpp, ts.cpp)\<close>

text \<open>
  The generators of the policies are not part of the state: a draw is an argument of the
  function that makes it. The constructors take the seed only for the generator.
\<close>

record ActivePTWBanditStrategy =
  m_model_aptw :: ActivePTW
  m_arms_aptw :: nat

definition ActivePTWBanditStrategy_init :: "nat \<Rightarrow> ActivePTWBanditStrategy" where
  "ActivePTWBanditStrategy_init n_arms =
     \<lparr>m_model_aptw = ActivePTW_init 30 n_arms, m_arms_aptw = n_arms\<rparr>"

definition ActivePTWBanditStrategy_update ::
  "ActivePTWBanditStrategy \<Rightarrow> nat \<Rightarrow> int \<Rightarrow> error + ActivePTWBanditStrategy" where
  "ActivePTWBanditStrategy_update s arm reward =
     bindE (ActivePTW_update (m_model_aptw s) reward arm) (\<lambda>m. Inr (s\<lparr>m_model_aptw := m\<rparr>))"

record ParanoidPTWBanditStrategy =
  m_arms_pptw :: nat
  m_aptw :: ActivePTWBanditStrategy
  m_trials :: nat

definition ParanoidPTWBanditStrategy_init :: "nat \<Rightarrow> ParanoidPTWBanditStrategy" where
  "ParanoidPTWBanditStrategy_init n_arms =
     \<lparr>m_arms_pptw = n_arms, m_aptw = ActivePTWBanditStrategy_init n_arms, m_trials = 0\<rparr>"

definition ParanoidPTWBanditStrategy_update ::
  "ParanoidPTWBanditStrategy \<Rightarrow> nat \<Rightarrow> int \<Rightarrow> error + ParanoidPTWBanditStrategy" where
  "ParanoidPTWBanditStrategy_update s arm reward =
     bindE (ActivePTWBanditStrategy_update (m_aptw s) arm reward) (\<lambda>a.
       Inr (s\<lparr>m_aptw := a, m_trials := m_trials s + 1\<rparr>))"

definition ActivePTWBanditStrategy_run ::
  "ActivePTWBanditStrategy \<Rightarrow> (nat \<times> int) list \<Rightarrow> error + ActivePTWBanditStrategy" where
  "ActivePTWBanditStrategy_run s obs =
     foldE (\<lambda>(arm, reward) s'. ActivePTWBanditStrategy_update s' arm reward) obs s"

definition ParanoidPTWBanditStrategy_run ::
  "ParanoidPTWBanditStrategy \<Rightarrow> (nat \<times> int) list \<Rightarrow> error + ParanoidPTWBanditStrategy" where
  "ParanoidPTWBanditStrategy_run s obs =
     foldE (\<lambda>(arm, reward) s'. ParanoidPTWBanditStrategy_update s' arm reward) obs s"

text \<open>The observations a policy can be given: an arm of the policy and a binary reward.\<close>

definition valid_obs :: "nat \<Rightarrow> (nat \<times> int) list \<Rightarrow> bool" where
  "valid_obs n_arms obs \<longleftrightarrow> (\<forall>(arm, reward) \<in> set obs. arm < n_arms \<and> (reward = 0 \<or> reward = 1))"

text \<open>
  \<open>exploreProb\<close>, with its assertion, on doubles with their range: \<open>std::pow\<close> is
  \<open>dpow2\<close>, the product and the difference follow the IEEE rules for infinities and NaN,
  and \<open>std::min (1.0, prob)\<close> is \<open>dmin\<close>. The argument is converted to \<open>double\<close>, and
  \<open>k / 2\<close> is a division of doubles.
\<close>

definition exploreProb :: "nat \<Rightarrow> error + dbl" where
  "exploreProb log2_segment_size =
     (let C = Fin 1;
          k = real log2_segment_size;
          prob = dmul (dpow2 (- k)) (dsub (dpow2 (k / 2)) (Fin (k * ln 2)));
          prob = dmul C prob;
          prob = dmin (Fin 1) prob
      in if \<not> (dge prob (Fin 0) \<and> dle prob (Fin 1)) then Inl AssertFailed else Inr prob)"

section \<open>UCB1, KL-UCB and sliding-window UCB (ucb.cpp, kl_ucb.cpp, sliding_ucb.cpp)\<close>

text \<open>
  The three classes share the text of \<open>unvisitedArms\<close> and of \<open>getAction\<close> up to the score:
  \<open>unvisitedArms_of\<close> and \<open>choose_action\<close> are that text. \<open>draw\<close> is the output of the
  generator; \<open>uniform_int_distribution(0, n - 1)\<close> maps it into \<open>[0, n - 1]\<close>, every index
  of which is a possible result, and \<open>draw mod n\<close> ranges over all of them. The scores are
  \<open>dbl\<close>, since \<open>best\<close> starts at minus infinity and a score divides by a visit count.
\<close>

definition unvisitedArms_of :: "nat \<Rightarrow> real list \<Rightarrow> error + nat list" where
  "unvisitedArms_of arms visits =
     foldE (\<lambda>arm rval. bindE (nth_chk visits arm) (\<lambda>v.
              Inr (if v = 0 then rval @ [arm] else rval)))
       [0 ..< arms] []"

definition argmax_score :: "(nat \<Rightarrow> error + dbl) \<Rightarrow> nat \<Rightarrow> error + nat" where
  "argmax_score score arms =
     bindE (foldE (\<lambda>i s. case s of (best, best_idx) \<Rightarrow>
                     bindE (score i) (\<lambda>sc.
                       Inr (if dgt sc best then (sc, i) else (best, best_idx))))
              [0 ..< arms] (NInf, 0))
       (\<lambda>s. Inr (snd s))"

definition choose_action :: "nat list \<Rightarrow> nat \<Rightarrow> (nat \<Rightarrow> error + dbl) \<Rightarrow> nat \<Rightarrow> error + nat" where
  "choose_action unvisited draw score arms =
     (if unvisited \<noteq> [] then Inr (unvisited ! (draw mod length unvisited))
      else argmax_score score arms)"

record UCBStrategy =
  m_arms_ucb :: nat
  m_arm_cumm_reward_ucb :: "real list"
  m_arm_visits_ucb :: "real list"
  m_visits_ucb :: real

definition UCBStrategy_init :: "nat \<Rightarrow> UCBStrategy" where
  "UCBStrategy_init n_arms =
     \<lparr>m_arms_ucb = n_arms,
      m_arm_cumm_reward_ucb = replicate n_arms 0,
      m_arm_visits_ucb = replicate n_arms 0,
      m_visits_ucb = 0\<rparr>"

definition UCB_reset :: "UCBStrategy \<Rightarrow> UCBStrategy" where
  "UCB_reset s =
     s\<lparr>m_visits_ucb := 0,
       m_arm_cumm_reward_ucb := replicate (m_arms_ucb s) 0,
       m_arm_visits_ucb := replicate (m_arms_ucb s) 0\<rparr>"

definition UCB_unvisitedArms :: "UCBStrategy \<Rightarrow> error + nat list" where
  "UCB_unvisitedArms s = unvisitedArms_of (m_arms_ucb s) (m_arm_visits_ucb s)"

definition UCB_ucb :: "UCBStrategy \<Rightarrow> nat \<Rightarrow> error + dbl" where
  "UCB_ucb s arm =
     bindE (nth_chk (m_arm_cumm_reward_ucb s) arm) (\<lambda>c.
     bindE (nth_chk (m_arm_visits_ucb s) arm) (\<lambda>v.
       (let mean = ddiv (Fin c) (Fin v);
            ci = dsqrt (ddiv (dmul (Fin 2) (dlog (Fin (m_visits_ucb s)))) (Fin v))
        in Inr (dadd mean ci))))"

definition UCB_getAction :: "UCBStrategy \<Rightarrow> nat \<Rightarrow> error + nat" where
  "UCB_getAction s draw =
     bindE (UCB_unvisitedArms s) (\<lambda>unvisited.
       choose_action unvisited draw (UCB_ucb s) (m_arms_ucb s))"

definition UCB_update :: "UCBStrategy \<Rightarrow> nat \<Rightarrow> int \<Rightarrow> error + UCBStrategy" where
  "UCB_update s arm reward =
     bindE (nth_chk (m_arm_cumm_reward_ucb s) arm) (\<lambda>c.
     bindE (nth_chk (m_arm_visits_ucb s) arm) (\<lambda>v.
       Inr (s\<lparr>m_arm_cumm_reward_ucb := (m_arm_cumm_reward_ucb s)[arm := c + real_of_int reward],
              m_arm_visits_ucb := (m_arm_visits_ucb s)[arm := v + 1],
              m_visits_ucb := m_visits_ucb s + 1\<rparr>)))"

text \<open>
  KL-UCB. The bisection of \<open>maxRelEntropy\<close> halves \<open>high - low\<close> in every pass, which is its
  termination. In \<open>klUCB\<close> the argument of the logarithm is \<open>m_visits + 1\<close>, at least 1 in
  every state the policy reaches.
\<close>

record KLUCBStrategy =
  m_arms_kl :: nat
  m_arm_successes_kl :: "real list"
  m_arm_visits_kl :: "real list"
  m_visits_kl :: real

definition KLUCBStrategy_init :: "nat \<Rightarrow> KLUCBStrategy" where
  "KLUCBStrategy_init n_arms =
     \<lparr>m_arms_kl = n_arms,
      m_arm_successes_kl = replicate n_arms 0,
      m_arm_visits_kl = replicate n_arms 0,
      m_visits_kl = 0\<rparr>"

definition KLUCB_unvisitedArms :: "KLUCBStrategy \<Rightarrow> error + nat list" where
  "KLUCB_unvisitedArms s = unvisitedArms_of (m_arms_kl s) (m_arm_visits_kl s)"

definition eps :: real where
  "eps = 1 / 10 ^ 8"

function maxRelEntropy_loop :: "real \<Rightarrow> real \<Rightarrow> real \<Rightarrow> real \<Rightarrow> real" where
  "maxRelEntropy_loop p ub low high =
     (let q = low + (high - low) / 2;
          e = bernoulliRelEntropy (Fin p) (Fin q);
          high' = (if dgt e (Fin ub) then q else high);
          low' = (if dgt e (Fin ub) then low else q)
      in if high' - low' > eps then maxRelEntropy_loop p ub low' high' else low')"
  by pat_completeness auto
termination
proof (relation "measure (\<lambda>(p, ub, low, high). nat \<lfloor>(high - low) / eps\<rfloor>)")
  show "wf (measure (\<lambda>(p, ub, low, high). nat \<lfloor>(high - low) / eps\<rfloor>))" by simp
next
  fix p ub low high :: real and q e high' low'
  assume q: "q = low + (high - low) / 2"
    and h: "high' = (if dgt e (Fin ub) then q else high)"
    and l: "low' = (if dgt e (Fin ub) then low else q)"
    and gt: "eps < high' - low'"
  have e: "0 < eps" by (simp add: eps_def)
  have half: "high' - low' = (high - low) / 2" using q h l by (auto simp: field_simps)
  then have "2 * eps < high - low" using gt by simp
  then have two: "2 \<le> (high - low) / eps" using e by (simp add: field_simps)
  have "(high' - low') / eps = (high - low) / eps / 2" unfolding half by simp
  also have "\<dots> \<le> (high - low) / eps - 1" using two by simp
  finally have "\<lfloor>(high' - low') / eps\<rfloor> \<le> \<lfloor>(high - low) / eps - 1\<rfloor>" by (rule floor_mono)
  then have "\<lfloor>(high' - low') / eps\<rfloor> < \<lfloor>(high - low) / eps\<rfloor>" by simp
  moreover have "0 < \<lfloor>(high - low) / eps\<rfloor>" using two by simp
  ultimately show "((p, ub, low', high'), (p, ub, low, high))
     \<in> measure (\<lambda>(p, ub, low, high). nat \<lfloor>(high - low) / eps\<rfloor>)"
    by simp
qed

definition maxRelEntropy :: "real \<Rightarrow> real \<Rightarrow> error + real" where
  "maxRelEntropy p ub = (if \<not> ub > 0 then Inl AssertFailed else Inr (maxRelEntropy_loop p ub p 1))"

definition KLUCB_klUCB :: "KLUCBStrategy \<Rightarrow> nat \<Rightarrow> error + dbl" where
  "KLUCB_klUCB s arm =
     bindE (nth_chk (m_arm_visits_kl s) arm) (\<lambda>v.
       if \<not> v \<ge> 1 then Inl AssertFailed
       else
         bindE (nth_chk (m_arm_successes_kl s) arm) (\<lambda>su.
           (let t = m_visits_kl s + 1;
                f = (\<lambda>x. let lx = ln x in 1 + x * lx * lx);
                ub = ln (f t) / v;
                p = su / v
            in bindE (maxRelEntropy p ub) (\<lambda>score. Inr (Fin score)))))"

definition KLUCB_getAction :: "KLUCBStrategy \<Rightarrow> nat \<Rightarrow> error + nat" where
  "KLUCB_getAction s draw =
     bindE (KLUCB_unvisitedArms s) (\<lambda>unvisited.
       choose_action unvisited draw (KLUCB_klUCB s) (m_arms_kl s))"

definition KLUCB_update :: "KLUCBStrategy \<Rightarrow> nat \<Rightarrow> int \<Rightarrow> error + KLUCBStrategy" where
  "KLUCB_update s arm reward =
     bindE (nth_chk (m_arm_successes_kl s) arm) (\<lambda>su.
     bindE (nth_chk (m_arm_visits_kl s) arm) (\<lambda>v.
       Inr (s\<lparr>m_arm_successes_kl := (m_arm_successes_kl s)[arm := su + real_of_int reward],
              m_arm_visits_kl := (m_arm_visits_kl s)[arm := v + 1],
              m_visits_kl := m_visits_kl s + 1\<rparr>)))"

text \<open>Sliding-window UCB: \<open>m_plays\<close> and \<open>m_rewards\<close> are the two deques, oldest first.\<close>

record SlidingUCBStrategy =
  m_arms_sw :: nat
  m_window_sw :: nat
  m_plays_sw :: "nat list"
  m_rewards_sw :: "real list"
  m_arm_cumm_reward_sw :: "real list"
  m_arm_visits_sw :: "real list"

definition SlidingUCBStrategy_init :: "nat \<Rightarrow> nat \<Rightarrow> SlidingUCBStrategy" where
  "SlidingUCBStrategy_init n_arms window =
     \<lparr>m_arms_sw = n_arms,
      m_window_sw = window,
      m_plays_sw = [],
      m_rewards_sw = [],
      m_arm_cumm_reward_sw = replicate n_arms 0,
      m_arm_visits_sw = replicate n_arms 0\<rparr>"

definition SlidingUCB_unvisitedArms :: "SlidingUCBStrategy \<Rightarrow> error + nat list" where
  "SlidingUCB_unvisitedArms s = unvisitedArms_of (m_arms_sw s) (m_arm_visits_sw s)"

definition SlidingUCB_ucb :: "SlidingUCBStrategy \<Rightarrow> nat \<Rightarrow> error + dbl" where
  "SlidingUCB_ucb s arm =
     bindE (nth_chk (m_arm_cumm_reward_sw s) arm) (\<lambda>c.
     bindE (nth_chk (m_arm_visits_sw s) arm) (\<lambda>v.
       (let mean = ddiv (Fin c) (Fin v);
            ci = dsqrt (ddiv (dmul (Fin 2) (dlog (Fin (real (length (m_plays_sw s)))))) (Fin v))
        in Inr (dadd mean ci))))"

definition SlidingUCB_getAction :: "SlidingUCBStrategy \<Rightarrow> nat \<Rightarrow> error + nat" where
  "SlidingUCB_getAction s draw =
     bindE (SlidingUCB_unvisitedArms s) (\<lambda>unvisited.
       choose_action unvisited draw (SlidingUCB_ucb s) (m_arms_sw s))"

definition SlidingUCB_update :: "SlidingUCBStrategy \<Rightarrow> nat \<Rightarrow> int \<Rightarrow> error + SlidingUCBStrategy" where
  "SlidingUCB_update s arm reward =
     (let plays = m_plays_sw s @ [arm];
          rewards = m_rewards_sw s @ [real_of_int reward]
      in bindE (nth_chk (m_arm_cumm_reward_sw s) arm) (\<lambda>c.
         bindE (upd_chk (m_arm_cumm_reward_sw s) arm (c + real_of_int reward)) (\<lambda>cumm.
         bindE (nth_chk (m_arm_visits_sw s) arm) (\<lambda>v.
         bindE (upd_chk (m_arm_visits_sw s) arm (v + 1)) (\<lambda>visits.
           if length plays > m_window_sw s then
             bindE (nth_chk visits (hd plays)) (\<lambda>vf.
             bindE (upd_chk visits (hd plays) (vf - 1)) (\<lambda>visits.
             bindE (nth_chk cumm (hd plays)) (\<lambda>cf.
             bindE (upd_chk cumm (hd plays) (cf - hd rewards)) (\<lambda>cumm.
               Inr (s\<lparr>m_plays_sw := tl plays, m_rewards_sw := tl rewards,
                      m_arm_cumm_reward_sw := cumm, m_arm_visits_sw := visits\<rparr>)))))
           else
             Inr (s\<lparr>m_plays_sw := plays, m_rewards_sw := rewards,
                    m_arm_cumm_reward_sw := cumm, m_arm_visits_sw := visits\<rparr>))))))"

text \<open>
  The interaction loop of the driver: the arm \<open>getAction\<close> returns is passed to \<open>update\<close>
  with a reward. A round is the draw of its \<open>getAction\<close> and its reward; the run returns
  the arms chosen and the final state.
\<close>

fun play ::
  "('s \<Rightarrow> nat \<Rightarrow> error + nat) \<Rightarrow> ('s \<Rightarrow> nat \<Rightarrow> int \<Rightarrow> error + 's) \<Rightarrow> 's \<Rightarrow> (nat \<times> int) list
     \<Rightarrow> error + nat list \<times> 's" where
  "play getAction update s [] = Inr ([], s)"
| "play getAction update s ((draw, reward) # rounds) =
     bindE (getAction s draw) (\<lambda>arm.
     bindE (update s arm reward) (\<lambda>s'.
     bindE (play getAction update s' rounds) (\<lambda>(arms, s'').
     Inr (arm # arms, s''))))"

subsection \<open>Invariants of the first rounds\<close>

text \<open>
  While arms remain unvisited, the arms \<open>seen\<close> so far have visit count 1 and the others 0;
  for the sliding window this holds as long as nothing was evicted, and \<open>m_plays\<close> is
  \<open>seen\<close>. \<open>ucb_wf\<close> is the shape every UCB1 state has.
\<close>

definition visits_match :: "nat \<Rightarrow> nat list \<Rightarrow> real list \<Rightarrow> bool" where
  "visits_match K seen visits \<longleftrightarrow>
     length visits = K \<and> (\<forall>a < K. visits ! a = (if a \<in> set seen then 1 else 0))"

definition ucb_inv :: "nat \<Rightarrow> nat list \<Rightarrow> UCBStrategy \<Rightarrow> bool" where
  "ucb_inv K seen s \<longleftrightarrow>
     m_arms_ucb s = K \<and> length (m_arm_cumm_reward_ucb s) = K
     \<and> visits_match K seen (m_arm_visits_ucb s)"

definition klucb_inv :: "nat \<Rightarrow> nat list \<Rightarrow> KLUCBStrategy \<Rightarrow> bool" where
  "klucb_inv K seen s \<longleftrightarrow>
     m_arms_kl s = K \<and> length (m_arm_successes_kl s) = K
     \<and> visits_match K seen (m_arm_visits_kl s)"

definition sw_inv :: "nat \<Rightarrow> nat list \<Rightarrow> SlidingUCBStrategy \<Rightarrow> bool" where
  "sw_inv K seen s \<longleftrightarrow>
     m_arms_sw s = K \<and> K \<le> m_window_sw s + 1 \<and> length (m_arm_cumm_reward_sw s) = K
     \<and> m_plays_sw s = seen \<and> visits_match K seen (m_arm_visits_sw s)"

definition ucb_wf :: "nat \<Rightarrow> UCBStrategy \<Rightarrow> bool" where
  "ucb_wf K a \<longleftrightarrow>
     m_arms_ucb a = K \<and> length (m_arm_cumm_reward_ucb a) = K \<and> length (m_arm_visits_ucb a) = K"

section \<open>MALG over restarting UCB instances (master.hpp, master.cpp)\<close>

text \<open>
  A sub-instance is a UCB policy with its window \<open>[s, e]\<close>, both ends included; the
  table holds \<open>None\<close> for a null pointer. The draw of \<open>uniform01_dist\<close> at level \<open>m\<close>
  of a call is \<open>us m\<close>: each level draws once per call at most.
\<close>

record instance_t =
  inst_alg :: UCBStrategy
  inst_s :: nat
  inst_e :: nat

definition inst_length :: "instance_t \<Rightarrow> nat" where
  "inst_length i = inst_e i - inst_s i + 1"

record MalgUCB =
  m_arms_malg :: nat
  m_n :: nat
  m_tau :: nat
  m_instances :: "instance_t option list"

definition MalgUCB_init :: "nat \<Rightarrow> nat \<Rightarrow> MalgUCB" where
  "MalgUCB_init n_arms depth =
     \<lparr>m_arms_malg = n_arms, m_n = depth, m_tau = 1,
      m_instances = replicate (depth + 1) None\<rparr>"

text \<open>
  \<open>rho\<close>, and the largest \<open>size_t\<close>, the initial value of \<open>best\<close> and (as \<open>-1\<close>) of
  \<open>best_idx\<close> in \<open>activeInstance\<close>.
\<close>

definition rho :: "nat \<Rightarrow> real \<Rightarrow> real" where
  "rho arms t = (let a = real arms in sqrt (a / t) + a / t)"

definition size_max :: nat where
  "size_max = 2 ^ 64 - 1"

text \<open>
  One pass of the loop of \<open>getAction\<close> over \<open>off\<close>, at level \<open>m = m_n - off\<close>. The
  \<open>int\<close> expression \<open>1 << m\<close> is \<open>2 ^ m\<close> for \<open>m \<le> 30\<close>.
\<close>

definition schedule_step ::
  "MalgUCB \<Rightarrow> (nat \<Rightarrow> real) \<Rightarrow> nat \<Rightarrow> instance_t option list \<Rightarrow> error + instance_t option list" where
  "schedule_step st us off insts =
     (let m = m_n st - off in
      if 30 < m then Inl UndefinedShift
      else if (m_tau st - 1) mod 2 ^ m = 0 then
        (let threshold = ddiv (Fin (rho (m_arms_malg st) (2 ^ m_n st)))
                              (Fin (rho (m_arms_malg st) (2 ^ m)))
         in if dlt (Fin (us m)) threshold then
              (let start = m_tau st;
                   end = m_tau st + 2 ^ m - 1
               in bindE (nth_chk insts m) (\<lambda>cur.
                    case cur of
                      None \<Rightarrow>
                        Inr (insts[m := Some \<lparr>inst_alg = UCBStrategy_init (m_arms_malg st),
                                              inst_s = start, inst_e = end\<rparr>])
                    | Some i \<Rightarrow>
                        Inr (insts[m := Some (i\<lparr>inst_s := start, inst_e := end,
                                                inst_alg := UCB_reset (inst_alg i)\<rparr>)])))
            else Inr insts)
      else Inr insts)"

definition MalgUCB_activeInstance :: "MalgUCB \<Rightarrow> error + nat" where
  "MalgUCB_activeInstance st =
     bindE (foldE (\<lambda>i b. case b of (best, best_idx) \<Rightarrow>
                     bindE (nth_chk (m_instances st) i) (\<lambda>e.
                       case e of
                         None \<Rightarrow> Inr (best, best_idx)
                       | Some inst \<Rightarrow>
                           if m_tau st \<ge> inst_s inst \<and> m_tau st \<le> inst_e inst then
                             (if inst_length inst < best then Inr (inst_length inst, i)
                              else Inr (best, best_idx))
                           else Inr (best, best_idx)))
              [0 ..< length (m_instances st)] (size_max, size_max))
       (\<lambda>b. if \<not> fst b \<noteq> size_max then Inl AssertFailed else Inr (snd b))"

definition MalgUCB_getAction :: "MalgUCB \<Rightarrow> (nat \<Rightarrow> real) \<Rightarrow> nat \<Rightarrow> error + nat \<times> MalgUCB" where
  "MalgUCB_getAction st us draw =
     bindE (foldE (schedule_step st us) [0 ..< m_n st + 1] (m_instances st)) (\<lambda>insts.
       (let st' = st\<lparr>m_instances := insts\<rparr> in
        bindE (MalgUCB_activeInstance st') (\<lambda>active_idx.
        bindE (nth_chk insts active_idx) (\<lambda>e.
          case e of
            None \<Rightarrow> Inl NullPointer
          | Some inst \<Rightarrow> bindE (UCB_getAction (inst_alg inst) draw) (\<lambda>a. Inr (a, st'))))))"

definition MalgUCB_update :: "MalgUCB \<Rightarrow> nat \<Rightarrow> int \<Rightarrow> error + MalgUCB" where
  "MalgUCB_update st arm reward =
     bindE (MalgUCB_activeInstance st) (\<lambda>active_idx.
     bindE (nth_chk (m_instances st) active_idx) (\<lambda>e.
       case e of
         None \<Rightarrow> Inl NullPointer
       | Some inst \<Rightarrow>
           bindE (UCB_update (inst_alg inst) arm reward) (\<lambda>alg.
             Inr (st\<lparr>m_instances := (m_instances st)[active_idx := Some (inst\<lparr>inst_alg := alg\<rparr>)],
                    m_tau := m_tau st + 1\<rparr>))))"

text \<open>
  The alternating protocol: a round is the draws of one \<open>getAction\<close> and the reward passed
  to \<open>update\<close> with the arm it returned. The run returns the arms, the states in which
  \<open>activeInstance\<close> was invoked (one per round: \<open>getAction\<close> and \<open>update\<close> call it on the
  same table and the same \<open>m_tau\<close>), and the final state.
\<close>

fun MalgUCB_run ::
  "MalgUCB \<Rightarrow> ((nat \<Rightarrow> real) \<times> nat \<times> int) list \<Rightarrow> error + nat list \<times> MalgUCB list \<times> MalgUCB" where
  "MalgUCB_run st [] = Inr ([], [], st)"
| "MalgUCB_run st ((us, draw, reward) # rounds) =
     bindE (MalgUCB_getAction st us draw) (\<lambda>(arm, st1).
     bindE (MalgUCB_update st1 arm reward) (\<lambda>st2.
     bindE (MalgUCB_run st2 rounds) (\<lambda>(arms, sts, st3).
     Inr (arm # arms, st1 # sts, st3))))"

definition covered :: "MalgUCB \<Rightarrow> bool" where
  "covered st \<longleftrightarrow>
     (\<exists>i < length (m_instances st). \<exists>inst. m_instances st ! i = Some inst
        \<and> inst_s inst \<le> m_tau st \<and> m_tau st \<le> inst_e inst)"

definition unit_draws :: "((nat \<Rightarrow> real) \<times> nat \<times> int) list \<Rightarrow> bool" where
  "unit_draws rounds \<longleftrightarrow> (\<forall>(us, draw, reward) \<in> set rounds. \<forall>m. 0 \<le> us m \<and> us m < 1)"

subsection \<open>Invariant of the schedule\<close>

text \<open>
  Every installed instance is a well-formed UCB1 policy, and unless \<open>m_tau - 1\<close> is a
  multiple of \<open>2 ^ D\<close> (when the next \<open>getAction\<close> installs level \<open>D\<close>), level \<open>D\<close> holds the
  instance of the window of length \<open>2 ^ D\<close> around \<open>m_tau\<close>.
\<close>

definition insts_wf :: "nat \<Rightarrow> instance_t option list \<Rightarrow> bool" where
  "insts_wf K insts \<longleftrightarrow> (\<forall>inst. Some inst \<in> set insts \<longrightarrow> ucb_wf K (inst_alg inst))"

definition top_ok :: "nat \<Rightarrow> nat \<Rightarrow> instance_t option list \<Rightarrow> bool" where
  "top_ok D tau insts \<longleftrightarrow>
     (\<exists>inst. insts ! D = Some inst
        \<and> inst_s inst = (tau - 1) div 2 ^ D * 2 ^ D + 1
        \<and> inst_e inst = inst_s inst + 2 ^ D - 1)"

definition malg_inv :: "nat \<Rightarrow> nat \<Rightarrow> MalgUCB \<Rightarrow> bool" where
  "malg_inv K D st \<longleftrightarrow>
     m_arms_malg st = K \<and> m_n st = D \<and> length (m_instances st) = D + 1 \<and> 1 \<le> m_tau st
     \<and> insts_wf K (m_instances st)
     \<and> ((m_tau st - 1) mod 2 ^ D \<noteq> 0 \<longrightarrow> top_ok D (m_tau st) (m_instances st))"

section \<open>The environment (bandits.hpp, bandits.cpp)\<close>

text \<open>
  The change schedules, with the set of change points of the geometric schedule as the
  constructor left it (it is sampled once, at construction).
\<close>

datatype ChangeSchedule =
    NoChangeSchecule
  | GeometricAbruptChangeSchedule "nat set"
  | VectorAbruptChangeSchedule "nat set"
  | TwoPhaseChangeSchedule nat "real list" "real list"

definition TwoPhaseChangeSchedule_init :: "nat \<Rightarrow> real list \<Rightarrow> real list \<Rightarrow> ChangeSchedule" where
  "TwoPhaseChangeSchedule_init max_trials thetas_seg1 thetas_seg2 =
     TwoPhaseChangeSchedule (max_trials div 2) thetas_seg1 thetas_seg2"

fun changepoint :: "ChangeSchedule \<Rightarrow> nat \<Rightarrow> bool" where
  "changepoint NoChangeSchecule t = False"
| "changepoint (GeometricAbruptChangeSchedule m_cpts) t = (t \<in> m_cpts)"
| "changepoint (VectorAbruptChangeSchedule m_cpts) t = (t \<in> m_cpts)"
| "changepoint (TwoPhaseChangeSchedule m_halfway thetas_seg1 thetas_seg2) t =
     (t = m_halfway \<or> t = 1)"

fun customArmInitialisation :: "ChangeSchedule \<Rightarrow> nat \<Rightarrow> real list" where
  "customArmInitialisation (TwoPhaseChangeSchedule m_halfway m_thetas_seg1 m_thetas_seg2) t =
     (if t < m_halfway then m_thetas_seg1 else m_thetas_seg2)"
| "customArmInitialisation _ t = []"

record StochasticBanditProblem =
  m_change_schedule :: ChangeSchedule
  m_num_trials :: nat
  m_cumm_reward :: real
  m_thetas :: "real list"
  m_exp_cumm_reward :: real

text \<open>
  \<open>reset\<close> draws every mean from \<open>unit_interval_dist\<close>; \<open>fresh i\<close> is the draw for arm \<open>i\<close>.
\<close>

definition env_reset :: "StochasticBanditProblem \<Rightarrow> (nat \<Rightarrow> real) \<Rightarrow> StochasticBanditProblem" where
  "env_reset st fresh = st\<lparr>m_thetas := map fresh [0 ..< length (m_thetas st)]\<rparr>"

definition StochasticBanditProblem_init ::
  "nat \<Rightarrow> ChangeSchedule \<Rightarrow> (nat \<Rightarrow> real) \<Rightarrow> StochasticBanditProblem" where
  "StochasticBanditProblem_init n_arms cs fresh =
     env_reset \<lparr>m_change_schedule = cs, m_num_trials = 0, m_cumm_reward = 0,
                m_thetas = replicate n_arms 0, m_exp_cumm_reward = 0\<rparr> fresh"

text \<open>
  \<open>std::max_element\<close> keeps the first of the largest elements: the candidate changes only
  when it is less than the element visited. \<open>max_element_from largest li i xs\<close> scans the
  elements \<open>xs\<close>, which start at index \<open>i\<close>, with the candidate \<open>largest\<close> at index \<open>li\<close>.
\<close>

fun max_element_from :: "real \<Rightarrow> nat \<Rightarrow> nat \<Rightarrow> real list \<Rightarrow> nat" where
  "max_element_from largest li i [] = li"
| "max_element_from largest li i (x # xs) =
     (if largest < x then max_element_from x i (i + 1) xs
      else max_element_from largest li (i + 1) xs)"

definition bestArm :: "StochasticBanditProblem \<Rightarrow> nat" where
  "bestArm st = (case m_thetas st of [] \<Rightarrow> 0 | x # xs \<Rightarrow> max_element_from x 0 1 xs)"

text \<open>
  \<open>pull\<close>: \<open>flip\<close> is the result of the Bernoulli coin with bias \<open>m_thetas[arm_index]\<close>, and
  \<open>fresh\<close> the draws of a \<open>reset\<close> at a change point.
\<close>

definition pull ::
  "StochasticBanditProblem \<Rightarrow> nat \<Rightarrow> bool \<Rightarrow> (nat \<Rightarrow> real) \<Rightarrow> error + real \<times> StochasticBanditProblem" where
  "pull st arm_index flip fresh =
     (if arm_index \<ge> length (m_thetas st) then Inl Exit
      else
        (let st = st\<lparr>m_num_trials := m_num_trials st + 1\<rparr>;
             r = (if flip then 1 else 0);
             st = st\<lparr>m_cumm_reward := m_cumm_reward st + r\<rparr>;
             ba = bestArm st
         in bindE (nth_chk (m_thetas st) ba) (\<lambda>best_theta.
              (let st = st\<lparr>m_exp_cumm_reward := m_exp_cumm_reward st + best_theta\<rparr>
               in if changepoint (m_change_schedule st) (m_num_trials st) then
                    (let new_thetas = customArmInitialisation (m_change_schedule st) (m_num_trials st)
                     in if new_thetas = [] then Inr (r, env_reset st fresh)
                        else if \<not> length new_thetas = length (m_thetas st) then Inl AssertFailed
                        else Inr (r, st\<lparr>m_thetas := new_thetas\<rparr>))
                  else Inr (r, st)))))"

definition bestHindsightExpectedReturn :: "StochasticBanditProblem \<Rightarrow> real" where
  "bestHindsightExpectedReturn st = m_exp_cumm_reward st"

definition cummulativeReward :: "StochasticBanditProblem \<Rightarrow> real" where
  "cummulativeReward st = m_cumm_reward st"

text \<open>
  A sequence of pulls, each with its arm, its coin and the draws of its reset. Beside the
  final state the run returns the sum of the means of the pulled arms, each taken when
  its arm is pulled: the expectation of the realized reward of these pulls.
\<close>

fun pulls ::
  "StochasticBanditProblem \<Rightarrow> (nat \<times> bool \<times> (nat \<Rightarrow> real)) list \<Rightarrow> error + real \<times> StochasticBanditProblem" where
  "pulls st [] = Inr (0, st)"
| "pulls st ((arm_index, flip, fresh) # rest) =
     bindE (pull st arm_index flip fresh) (\<lambda>(r, st').
     bindE (pulls st' rest) (\<lambda>(expected, st'').
     Inr (m_thetas st ! arm_index + expected, st'')))"

text \<open>
  The pulls of a run name arms of the problem, and a schedule fits a problem of \<open>K\<close> arms
  when its custom initialisations are empty or of length \<open>K\<close>.
\<close>

definition schedule_fits :: "nat \<Rightarrow> ChangeSchedule \<Rightarrow> bool" where
  "schedule_fits K cs \<longleftrightarrow>
     (\<forall>t. customArmInitialisation cs t = [] \<or> length (customArmInitialisation cs t) = K)"

definition valid_pulls :: "nat \<Rightarrow> (nat \<times> bool \<times> (nat \<Rightarrow> real)) list \<Rightarrow> bool" where
  "valid_pulls K ps \<longleftrightarrow> (\<forall>(arm_index, flip, fresh) \<in> set ps. arm_index < K)"

section \<open>Proofs: errors and loops\<close>

lemma foldE_append:
  "foldE f (xs @ ys) s = (case foldE f xs s of Inl e \<Rightarrow> Inl e | Inr s' \<Rightarrow> foldE f ys s')"
  by (induction xs arbitrary: s) (auto split: sum.splits)

lemma bindE_Inr [simp]: "bindE (Inr x) f = f x"
  by (simp add: bindE_def)

lemma bindE_Inl [simp]: "bindE (Inl e) f = Inl e"
  by (simp add: bindE_def)

lemma nth_chk_in [simp]: "i < length xs \<Longrightarrow> nth_chk xs i = Inr (xs ! i)"
  by (simp add: nth_chk_def)

lemma upd_chk_in [simp]: "i < length xs \<Longrightarrow> upd_chk xs i v = Inr (xs[i := v])"
  by (simp add: upd_chk_def)

lemma foldE_snoc: "foldE f (xs @ [x]) s = bindE (foldE f xs s) (f x)"
  by (cases "foldE f xs s"; cases "f x (projr (foldE f xs s))") (simp_all add: foldE_append)

lemma bindE_eq_Inr: "bindE m f = Inr y \<longleftrightarrow> (\<exists>x. m = Inr x \<and> f x = Inr y)"
  by (cases m) simp_all

section \<open>Proofs: KT estimator\<close>

lemma KT_update_bit:
  assumes "b = 0 \<or> b = 1"
  shows "KT_update e b =
    Inr \<lparr>m_log_kt = m_log_kt e +
            ln ((real (if b = 0 then fst (m_counts e) else snd (m_counts e)) + 1 / 2) /
                (real (fst (m_counts e)) + real (snd (m_counts e)) + 1)),
         m_counts = (if b = 0 then (fst (m_counts e) + 1, snd (m_counts e))
                     else (fst (m_counts e), snd (m_counts e) + 1))\<rparr>"
  using assms
  by (auto simp: KT_update_def KT_prob_def counts_get_def counts_incr_def KT_Alpha_def
      KT_Alpha2_def Let_def)

lemma kt_seq_log_snoc:
  "kt_seq_log (bs @ [b]) = kt_seq_log bs + ln (kt_pred bs b)"
  by (simp add: kt_seq_log_def nth_append)

lemma KT_run_char:
  assumes "set bs \<subseteq> {0, 1}"
  shows "KT_run KTEstimator_init bs =
    Inr \<lparr>m_log_kt = kt_seq_log bs, m_counts = (count_bit 0 bs, count_bit 1 bs)\<rparr>"
  using assms
proof (induction bs rule: rev_induct)
  case Nil
  then show ?case
    by (simp add: KT_run_def KTEstimator_init_def kt_seq_log_def count_bit_def)
next
  case (snoc b bs)
  then have b: "b = 0 \<or> b = 1" and run: "KT_run KTEstimator_init bs =
    Inr \<lparr>m_log_kt = kt_seq_log bs, m_counts = (count_bit 0 bs, count_bit 1 bs)\<rparr>"
    by auto
  have "KT_run KTEstimator_init (bs @ [b]) =
    KT_update \<lparr>m_log_kt = kt_seq_log bs, m_counts = (count_bit 0 bs, count_bit 1 bs)\<rparr> b"
    using run by (simp add: KT_run_def foldE_append split: sum.splits)
  also have "\<dots> = Inr \<lparr>m_log_kt = kt_seq_log (bs @ [b]),
      m_counts = (count_bit 0 (bs @ [b]), count_bit 1 (bs @ [b]))\<rparr>"
    using b by (auto simp: KT_update_bit kt_seq_log_snoc kt_pred_def count_bit_def)
  finally show ?case .
qed

text \<open>
  C3. For every finite sequence of bits fed to \<open>KTEstimator::update\<close>, every call
  returns, and afterwards \<open>logMarginal()\<close> is the sum over the sequence of
  \<open>log p(b\<^sub>i | past)\<close>, where \<open>p(b | past) = (c\<^sub>b + 1/2) / (c\<^sub>0 + c\<^sub>1 + 1)\<close> is taken with the
  counts before \<open>b\<^sub>i\<close> is incorporated, and \<open>posterior()\<close> is the pair
  \<open>(1/2 + c\<^sub>1, 1/2 + c\<^sub>0)\<close> of the final counts.
\<close>

theorem KT_update_sequence:
  assumes "set bs \<subseteq> {0, 1}"
  shows "\<exists>e. KT_run KTEstimator_init bs = Inr e
    \<and> KT_logMarginal e = kt_seq_log bs
    \<and> KT_posterior e = (1 / 2 + real (count_bit 1 bs), 1 / 2 + real (count_bit 0 bs))"
  using KT_run_char [OF assms]
  by (simp add: KT_logMarginal_def KT_posterior_def KT_Alpha_def)

theorem KT_update_sequence_witness:
  "set [1, 0, 1, 1 :: int] \<subseteq> {0, 1}
   \<and> (\<exists>e. KT_run KTEstimator_init [1, 0, 1, 1] = Inr e
      \<and> KT_logMarginal e = ln (1 / 2) + ln (1 / 4) + ln (1 / 2) + ln (5 / 8)
      \<and> KT_posterior e = (7 / 2, 3 / 2))"
  using KT_update_sequence [of "[1, 0, 1, 1]"]
  by (simp add: count_bit_def kt_seq_log_def kt_pred_def lessThan_nat_numeral lessThan_Suc ac_simps)

section \<open>Proofs: active partition tree weighting\<close>

lemma parity_pred_differs:
  assumes "2 \<le> (t::nat)"
  shows "(t - 1) AND 1 \<noteq> (t - 2) AND 1"
proof -
  obtain s where "t = s + 2" using assms by (metis le_add_diff_inverse2)
  then have "(t - 1) mod 2 \<noteq> (t - 2) mod 2"
    by simp presburger
  then show ?thesis by (simp add: and_one_eq)
qed

lemma mscb_loop_bound:
  assumes "2 \<le> t" "n = c + 1"
  shows "mscb_loop t n c cnt < cnt + n"
  using assms
proof (induction n arbitrary: c cnt)
  case 0
  then show ?case by simp
next
  case (Suc n)
  show ?case
  proof (cases n)
    case 0
    then have "c = 0" using Suc.prems by simp
    then show ?thesis using parity_pred_differs [OF Suc.prems(1)] 0
      by (simp add: Let_def)
  next
    case (Suc m)
    then have "n = (c - 1) + 1" using Suc.prems by simp
    from Suc.IH [OF Suc.prems(1) this, of "cnt + 1"] show ?thesis
      by (simp add: Let_def)
  qed
qed

lemma mscb_less_depth:
  assumes "1 \<le> depth" "1 \<le> t"
  shows "mscb depth t < depth"
proof (cases "t = 1")
  case True
  then show ?thesis using assms by (simp add: mscb_def)
next
  case False
  then have "2 \<le> t" using assms by simp
  from mscb_loop_bound [OF this, of depth "depth - 1" 0] assms show ?thesis
    by (simp add: mscb_def False)
qed

lemma foldE_reset:
  assumes "b \<le> length ns"
  shows "\<exists>ns'. foldE (\<lambda>j ns. upd_chk ns j v) [a ..< b] ns = Inr ns'
    \<and> length ns' = length ns
    \<and> (\<forall>j < length ns. ns' ! j = (if a \<le> j \<and> j < b then v else ns ! j))"
  using assms
proof (induction b)
  case 0
  then show ?case by simp
next
  case (Suc b)
  show ?case
  proof (cases "a \<le> b")
    case False
    then show ?thesis by auto
  next
    case True
    from Suc obtain ns' where ns': "foldE (\<lambda>j ns. upd_chk ns j v) [a ..< b] ns = Inr ns'"
      "length ns' = length ns"
      "\<forall>j < length ns. ns' ! j = (if a \<le> j \<and> j < b then v else ns ! j)"
      by auto
    have "foldE (\<lambda>j ns. upd_chk ns j v) [a ..< Suc b] ns = Inr (ns'[b := v])"
      using True ns' Suc.prems by (simp add: foldE_append)
    moreover have "\<forall>j < length ns. (ns'[b := v]) ! j = (if a \<le> j \<and> j < Suc b then v else ns ! j)"
      using ns' True by (auto simp: nth_list_update less_Suc_eq)
    ultimately show ?thesis using ns'(2) by simp
  qed
qed


lemma node_update_ok:
  assumes "k < length (m_model n)" "r = 0 \<or> r = 1"
  shows "\<exists>n1. node_update n r k = Inr n1
    \<and> length (m_model n1) = length (m_model n)
    \<and> m_log_weighted n1 = m_log_weighted n
    \<and> m_log_buf n1 = m_log_buf n"
  using assms by (auto simp: node_update_def KT_update_bit)

lemma node_logMarginal_weighted [simp]:
  "node_logMarginal (n\<lparr>m_log_weighted := w\<rparr>) = node_logMarginal n"
  by (simp add: node_logMarginal_def)

lemma node_logMarginal_buf [simp]:
  "node_logMarginal (n\<lparr>m_log_buf := w\<rparr>) = node_logMarginal n"
  by (simp add: node_logMarginal_def)

lemma node_update_buf:
  "node_update (n\<lparr>m_log_buf := w\<rparr>) r k =
     (case node_update n r k of Inl e \<Rightarrow> Inl e | Inr n1 \<Rightarrow> Inr (n1\<lparr>m_log_buf := w\<rparr>))"
  by (auto simp: node_update_def bindE_def nth_chk_def split: sum.splits)

lemma update_bottom_char:
  assumes "depth < length ns" "k < length (m_model (ns ! depth))" "r = 0 \<or> r = 1"
  shows "\<exists>n1. node_update (ns ! depth) r k = Inr n1
    \<and> update_bottom r k depth ns = Inr (ns[depth := n1\<lparr>m_log_weighted := node_logMarginal n1\<rparr>])"
  using node_update_ok [OF assms(2,3)] assms(1)
  by (auto simp: update_bottom_def)

lemma update_level_char:
  assumes "idx + 1 < length ns" "k < length (m_model (ns ! idx))" "r = 0 \<or> r = 1"
  shows "\<exists>n1. node_update (ns ! idx) r k = Inr n1
    \<and> update_level LogStop LogSplit r k idx ns =
        Inr (ns[idx := n1\<lparr>m_log_weighted :=
          logAdd (LogStop + node_logMarginal n1)
                 (LogSplit + m_log_weighted (ns ! (idx + 1)) + m_log_buf n1)\<rparr>])"
  using node_update_ok [OF assms(2,3)] assms(1)
  by (auto simp: update_level_def Let_def)

lemma update_loop_char:
  assumes "idx < length ns" "\<forall>j < idx. k < length (m_model (ns ! j))" "r = 0 \<or> r = 1"
  shows "\<exists>ns'. update_loop LogStop LogSplit r k idx ns = Inr ns'
    \<and> length ns' = length ns
    \<and> (\<forall>j. idx \<le> j \<longrightarrow> ns' ! j = ns ! j)
    \<and> (\<forall>j < idx. \<exists>n1. node_update (ns ! j) r k = Inr n1
          \<and> ns' ! j = n1\<lparr>m_log_weighted :=
                logAdd (LogStop + node_logMarginal n1)
                       (LogSplit + m_log_weighted (ns' ! (j + 1)) + m_log_buf n1)\<rparr>)"
  using assms
proof (induction idx arbitrary: ns)
  case 0
  then show ?case by simp
next
  case (Suc idx)
  from Suc.prems have len: "idx + 1 < length ns" and k: "k < length (m_model (ns ! idx))"
    by auto
  from update_level_char [OF len k Suc.prems(3), of LogStop LogSplit]
  obtain n1 where n1: "node_update (ns ! idx) r k = Inr n1"
    and lvl: "update_level LogStop LogSplit r k idx ns =
        Inr (ns[idx := n1\<lparr>m_log_weighted :=
          logAdd (LogStop + node_logMarginal n1)
                 (LogSplit + m_log_weighted (ns ! (idx + 1)) + m_log_buf n1)\<rparr>])"
    by blast
  define ns1 where "ns1 = ns[idx := n1\<lparr>m_log_weighted :=
          logAdd (LogStop + node_logMarginal n1)
                 (LogSplit + m_log_weighted (ns ! (idx + 1)) + m_log_buf n1)\<rparr>]"
  have len1: "idx < length ns1" using len by (simp add: ns1_def)
  have k1: "\<forall>j < idx. k < length (m_model (ns1 ! j))"
    using Suc.prems(2) by (simp add: ns1_def)
  from Suc.IH [OF len1 k1 Suc.prems(3)]
  obtain ns' where run: "update_loop LogStop LogSplit r k idx ns1 = Inr ns'"
    and len': "length ns' = length ns1"
    and keep: "\<forall>j. idx \<le> j \<longrightarrow> ns' ! j = ns1 ! j"
    and low: "\<forall>j < idx. \<exists>n1. node_update (ns1 ! j) r k = Inr n1
          \<and> ns' ! j = n1\<lparr>m_log_weighted :=
                logAdd (LogStop + node_logMarginal n1)
                       (LogSplit + m_log_weighted (ns' ! (j + 1)) + m_log_buf n1)\<rparr>"
    by blast
  have a: "update_loop LogStop LogSplit r k (Suc idx) ns = Inr ns'"
    using lvl run by (simp add: ns1_def)
  have b: "length ns' = length ns" using len' by (simp add: ns1_def)
  have c: "\<forall>j. Suc idx \<le> j \<longrightarrow> ns' ! j = ns ! j"
    using keep by (simp add: ns1_def)
  have at_idx: "ns' ! idx = n1\<lparr>m_log_weighted :=
          logAdd (LogStop + node_logMarginal n1)
                 (LogSplit + m_log_weighted (ns' ! (idx + 1)) + m_log_buf n1)\<rparr>"
    using keep len by (simp add: ns1_def)
  have d: "\<forall>j < Suc idx. \<exists>n1. node_update (ns ! j) r k = Inr n1
          \<and> ns' ! j = n1\<lparr>m_log_weighted :=
                logAdd (LogStop + node_logMarginal n1)
                       (LogSplit + m_log_weighted (ns' ! (j + 1)) + m_log_buf n1)\<rparr>"
  proof (intro allI impI)
    fix j assume "j < Suc idx"
    then consider "j = idx" | "j < idx" by linarith
    then show "\<exists>n1. node_update (ns ! j) r k = Inr n1
          \<and> ns' ! j = n1\<lparr>m_log_weighted :=
                logAdd (LogStop + node_logMarginal n1)
                       (LogSplit + m_log_weighted (ns' ! (j + 1)) + m_log_buf n1)\<rparr>"
    proof cases
      case 1
      then show ?thesis using n1 at_idx by simp
    next
      case 2
      then have "ns1 ! j = ns ! j" by (simp add: ns1_def)
      then show ?thesis using low 2 by auto
    qed
  qed
  from a b c d show ?case by blast
qed

lemma staged_arms:
  assumes "wf_ptw st" "j \<le> m_depth st"
  shows "length (m_model (staged st j)) = m_arms st"
proof -
  have "mscb (m_depth st) (m_index st + 1) < m_depth st"
    using assms(1) by (intro mscb_less_depth) (auto simp: wf_ptw_def)
  then show ?thesis
    using assms by (auto simp: staged_def Let_def wf_ptw_def ActivePTWNode_init_def)
qed

lemma update_char:
  assumes wf: "wf_ptw st" and k: "k < m_arms st" and r: "r = 0 \<or> r = 1"
    and idx: "m_index st < 2 ^ m_depth st"
  shows "\<exists>ns'. ActivePTW_update st r k = Inr (st\<lparr>m_nodes := ns', m_index := m_index st + 1\<rparr>)
    \<and> length ns' = m_depth st + 1
    \<and> (\<forall>j \<le> m_depth st. \<exists>n1. node_update (staged st j) r k = Inr n1
          \<and> ns' ! j = n1\<lparr>m_log_weighted :=
               (if j = m_depth st then node_logMarginal n1
                else logAdd (LogStopWeight st + node_logMarginal n1)
                       (LogSplitWeight st + m_log_weighted (ns' ! (j + 1)) + m_log_buf n1))\<rparr>)"
proof -
  define D where "D = m_depth st"
  define i where "i = mscb D (m_index st + 1)"
  define fresh where "fresh = ActivePTWNode_init (m_arms st)"
  define ns0 where "ns0 = (m_nodes st)[i := (m_nodes st ! i)\<lparr>m_log_buf := m_log_weighted (m_nodes st ! (i + 1))\<rparr>]"
  have D: "1 \<le> D" "D \<le> 30" "length (m_nodes st) = D + 1"
    using wf by (auto simp: wf_ptw_def D_def)
  have i: "i < D" unfolding i_def using D(1) by (intro mscb_less_depth) auto
  have len0: "length ns0 = D + 1" using D by (simp add: ns0_def)
  from foldE_reset [where b = "D + 1" and ns = ns0 and a = "i + 1" and v = fresh] len0
  obtain ns2 where ns2: "foldE (\<lambda>j ns. upd_chk ns j fresh) [i + 1 ..< D + 1] ns0 = Inr ns2"
    "length ns2 = D + 1"
    "\<forall>j < D + 1. ns2 ! j = (if i + 1 \<le> j \<and> j < D + 1 then fresh else ns0 ! j)"
    by auto
  have stg: "staged st j =
      (if j < i then m_nodes st ! j
       else if j = i then (m_nodes st ! i)\<lparr>m_log_buf := m_log_weighted (m_nodes st ! (i + 1))\<rparr>
       else fresh)" for j
    by (simp only: staged_def Let_def i_def D_def fresh_def)
  have st2: "ns2 ! j = staged st j" if "j \<le> D" for j
    using that ns2(3) i D by (auto simp: stg ns0_def)
  have arms2: "length (m_model (ns2 ! j)) = m_arms st" if "j \<le> D" for j
    using st2 [OF that] staged_arms [OF wf, of j] that by (simp add: D_def)
  from update_bottom_char [of D ns2 k r] ns2(2) arms2 [of D] k r
  obtain nD where nD: "node_update (ns2 ! D) r k = Inr nD"
    "update_bottom r k D ns2 = Inr (ns2[D := nD\<lparr>m_log_weighted := node_logMarginal nD\<rparr>])"
    by auto
  define ns3 where "ns3 = ns2[D := nD\<lparr>m_log_weighted := node_logMarginal nD\<rparr>]"
  have len3: "D < length ns3" using ns2(2) by (simp add: ns3_def)
  have low3: "ns3 ! j = ns2 ! j" if "j < D" for j using that by (simp add: ns3_def)
  have k3: "\<forall>j < D. k < length (m_model (ns3 ! j))"
    using low3 arms2 k by simp
  from update_loop_char [OF len3 k3 r, of "LogStopWeight st" "LogSplitWeight st"]
  obtain ns' where ns': "update_loop (LogStopWeight st) (LogSplitWeight st) r k D ns3 = Inr ns'"
    "length ns' = length ns3"
    "\<forall>j. D \<le> j \<longrightarrow> ns' ! j = ns3 ! j"
    "\<forall>j < D. \<exists>n1. node_update (ns3 ! j) r k = Inr n1
          \<and> ns' ! j = n1\<lparr>m_log_weighted :=
                logAdd (LogStopWeight st + node_logMarginal n1)
                       (LogSplitWeight st + m_log_weighted (ns' ! (j + 1)) + m_log_buf n1)\<rparr>"
    by blast
  have "ActivePTW_update st r k =
      bindE (nth_chk (m_nodes st) (i + 1)) (\<lambda>child.
      bindE (nth_chk (m_nodes st) i) (\<lambda>n.
      bindE (foldE (\<lambda>j ns. upd_chk ns j fresh) [i + 1 ..< D + 1]
               ((m_nodes st)[i := n\<lparr>m_log_buf := m_log_weighted child\<rparr>])) (\<lambda>ns.
      bindE (update_bottom r k D ns) (\<lambda>ns.
      bindE (update_loop (LogStopWeight st) (LogSplitWeight st) r k D ns) (\<lambda>ns.
      Inr (st\<lparr>m_nodes := ns, m_index := m_index st + 1\<rparr>))))))"
    using D(2) idx unfolding ActivePTW_update_def Let_def i_def D_def fresh_def by simp
  also have "\<dots> = Inr (st\<lparr>m_nodes := ns', m_index := m_index st + 1\<rparr>)"
  proof -
    have c1: "nth_chk (m_nodes st) (i + 1) = Inr (m_nodes st ! (i + 1))"
      and c2: "nth_chk (m_nodes st) i = Inr (m_nodes st ! i)"
      using D(3) i by (simp_all add: nth_chk_def)
    have c3: "update_bottom r k D ns2 = Inr ns3"
      using nD(2) by (simp only: ns3_def)
    show ?thesis
      by (simp only: c1 c2 bindE_Inr ns0_def [symmetric] ns2(1) c3 ns'(1))
  qed
  finally have run: "ActivePTW_update st r k = Inr (st\<lparr>m_nodes := ns', m_index := m_index st + 1\<rparr>)" .
  have len': "length ns' = m_depth st + 1"
    using ns'(2) ns2(2) by (simp add: ns3_def D_def)
  have lvl: "\<exists>n1. node_update (staged st j) r k = Inr n1
          \<and> ns' ! j = n1\<lparr>m_log_weighted :=
               (if j = D then node_logMarginal n1
                else logAdd (LogStopWeight st + node_logMarginal n1)
                       (LogSplitWeight st + m_log_weighted (ns' ! (j + 1)) + m_log_buf n1))\<rparr>"
    if "j \<le> D" for j
  proof (cases "j = D")
    case True
    have "ns' ! D = nD\<lparr>m_log_weighted := node_logMarginal nD\<rparr>"
      using ns'(3) ns2(2) by (simp add: ns3_def)
    then show ?thesis using True nD(1) st2 [of D] by simp
  next
    case False
    then have "j < D" using that by simp
    then show ?thesis using ns'(4) low3 st2 [of j] by auto
  qed
  from lvl have lvl': "\<forall>j \<le> m_depth st. \<exists>n1. node_update (staged st j) r k = Inr n1
          \<and> ns' ! j = n1\<lparr>m_log_weighted :=
               (if j = m_depth st then node_logMarginal n1
                else logAdd (LogStopWeight st + node_logMarginal n1)
                       (LogSplitWeight st + m_log_weighted (ns' ! (j + 1)) + m_log_buf n1))\<rparr>"
    unfolding D_def by blast
  from run len' lvl' show ?thesis by blast
qed

lemma ActivePTW_init_sel [simp]:
  "m_index (ActivePTW_init depth arms) = 0"
  "m_depth (ActivePTW_init depth arms) = depth"
  "m_arms (ActivePTW_init depth arms) = arms"
  "m_nodes (ActivePTW_init depth arms) = replicate (depth + 1) (ActivePTWNode_init arms)"
  "LogStopWeight (ActivePTW_init depth arms) = ln ((real arms - 1) / real arms)"
  "LogSplitWeight (ActivePTW_init depth arms) = ln (1 - (real arms - 1) / real arms)"
  by (simp_all add: ActivePTW_init_def Let_def)

lemma wf_ptw_init: "1 \<le> depth \<Longrightarrow> depth \<le> 30 \<Longrightarrow> wf_ptw (ActivePTW_init depth arms)"
  by (simp add: wf_ptw_def ActivePTWNode_init_def)

lemma logAdd_char:
  "logAdd a b = (if \<bar>a - b\<bar> < 100 then ln (exp a + exp b) else max a b)"
proof -
  have sum: "ln (1 + exp (y - x)) + x = ln (exp x + exp y)" for x y :: real
  proof -
    have "exp x + exp y = exp x * (1 + exp (y - x))"
      by (simp add: algebra_simps exp_add [symmetric])
    moreover have "1 + exp (y - x) \<noteq> 0"
      using exp_gt_zero [of "y - x"] by linarith
    then have "ln (exp x * (1 + exp (y - x))) = x + ln (1 + exp (y - x))"
      by (simp add: ln_mult)
    ultimately show ?thesis by simp
  qed
  show ?thesis
  proof (cases "a > b")
    case True
    then show ?thesis
      using sum [of a b] by (auto simp: logAdd_def Let_def ac_simps)
  next
    case False
    then show ?thesis
      using sum [of b a] by (auto simp: logAdd_def Let_def ac_simps)
  qed
qed

lemma and_mask_bit:
  "x AND push_bit c (1::nat) = (if odd (x div 2 ^ c) then 2 ^ c else 0)"
proof -
  have "x AND push_bit c (1::nat) = (if bit x c then push_bit c 1 else 0)"
    by (rule bit_eqI) (auto simp: bit_and_iff bit_push_bit_iff bit_1_iff bit_exp_iff)
  then show ?thesis by (simp add: bit_iff_odd)
qed

lemma odd_part:
  "0 < n \<Longrightarrow> \<exists>z m. n = 2 ^ z * m \<and> odd m" for n :: nat
proof (induction n rule: less_induct)
  case (less n)
  show ?case
  proof (cases "odd n")
    case True
    then have "n = 2 ^ 0 * n \<and> odd n" by simp
    then show ?thesis by blast
  next
    case False
    then obtain h where h: "n = 2 * h" by (auto elim: evenE)
    with less.prems have "h < n" "0 < h" by simp_all
    from less.IH [OF this] obtain z m where "h = 2 ^ z * m" "odd m" by blast
    then have "n = 2 ^ (Suc z) * m \<and> odd m" using h by simp
    then show ?thesis by blast
  qed
qed

lemma succ_bits:
  fixes a :: nat
  assumes a: "a + 1 = 2 ^ z * m" and m: "odd m"
  shows "odd ((a + 1) div 2 ^ z)" "even (a div 2 ^ z)"
    "z < c \<Longrightarrow> odd ((a + 1) div 2 ^ c) = odd (a div 2 ^ c)"
proof -
  define P :: nat where "P = 2 ^ z"
  have P: "0 < P" by (simp add: P_def)
  obtain q where q: "m = 2 * q + 1" using m by (auto elim: oddE)
  define R where "R = P * (2 * q)"
  have "a + 1 = P * (2 * q + 1)"
    using a unfolding q P_def .
  also have "\<dots> = R + P"
    unfolding R_def by (simp only: distrib_left mult_1_right)
  finally have a1': "a + 1 = R + P" .
  then have a0': "a = R + (P - 1)"
    using P by arith
  have a1: "a + 1 = P * (2 * q) + P"
    using a1' unfolding R_def .
  have a0: "a = P * (2 * q) + (P - 1)"
    using a0' unfolding R_def .
  have "(P * (2 * q) + P) div P = 2 * q + P div P"
    using P by (intro div_mult_self4) simp
  then have d1: "(a + 1) div P = 2 * q + 1"
    using P a1 by simp
  have "(P * (2 * q) + (P - 1)) div P = 2 * q + (P - 1) div P"
    using P by (intro div_mult_self4) simp
  moreover have "(P - 1) div P = 0"
    using P by (intro div_less) simp
  ultimately have d0: "a div P = 2 * q"
    using a0 by simp
  show "odd ((a + 1) div 2 ^ z)" using d1 by (simp add: P_def)
  show "even (a div 2 ^ z)" using d0 by (simp add: P_def)
  assume "z < c"
  then obtain e where "c = Suc (z + e)" by (auto dest: less_imp_Suc_add)
  then have c: "c = z + Suc e" by simp
  have pc: "(2::nat) ^ c = P * (2 * 2 ^ e)" by (simp add: c P_def power_add)
  have "(a + 1) div 2 ^ c = ((a + 1) div P) div (2 * 2 ^ e)"
    unfolding pc by (rule div_mult2_eq)
  also have "\<dots> = (2 * q + 1) div 2 div 2 ^ e"
    unfolding d1 by (rule div_mult2_eq)
  also have "(2 * q + 1) div 2 = q" by simp
  finally have x: "(a + 1) div 2 ^ c = q div 2 ^ e" .
  have "a div 2 ^ c = (a div P) div (2 * 2 ^ e)"
    unfolding pc by (rule div_mult2_eq)
  also have "\<dots> = (2 * q) div 2 div 2 ^ e"
    unfolding d0 by (rule div_mult2_eq)
  also have "(2 * q) div 2 = q" by simp
  finally have y: "a div 2 ^ c = q div 2 ^ e" .
  show "odd ((a + 1) div 2 ^ c) = odd (a div 2 ^ c)" unfolding x y ..
qed

lemma mscb_loop_char:
  assumes "(t - 1) AND push_bit z (1::nat) \<noteq> (t - 2) AND push_bit z 1"
    and "\<forall>c' > z. (t - 1) AND push_bit c' (1::nat) = (t - 2) AND push_bit c' 1"
    and "z \<le> c" and "c - z < n"
  shows "mscb_loop t n c cnt = cnt + (c - z)"
  using assms(3,4)
proof (induction n arbitrary: c cnt)
  case 0
  then show ?case by simp
next
  case (Suc n)
  show ?case
  proof (cases "c = z")
    case True
    then show ?thesis using assms(1) by (simp add: Let_def)
  next
    case False
    with Suc.prems have c: "z < c" by simp
    then have same: "(t - 1) AND push_bit c (1::nat) = (t - 2) AND push_bit c 1"
      using assms(2) by blast
    have "mscb_loop t n (c - 1) (cnt + 1) = cnt + 1 + (c - 1 - z)"
      using c Suc.prems by (intro Suc.IH) auto
    then show ?thesis using same c by (simp add: Let_def)
  qed
qed

lemma mscb_char:
  assumes "0 < x" and "x < 2 ^ D"
  shows "mscb D (x + 1) < D
    \<and> 2 ^ (D - 1 - mscb D (x + 1)) dvd x \<and> \<not> 2 ^ (D - mscb D (x + 1)) dvd x"
proof -
  from odd_part [OF assms(1)] obtain z m where x: "x = 2 ^ z * m" and m: "odd m" by blast
  obtain a where a: "x = a + 1" using assms(1) by (cases x) auto
  have am: "a + 1 = 2 ^ z * m" using a x by simp
  have "0 < m" using m by (cases m) auto
  then have "(2::nat) ^ z \<le> x" unfolding x by simp
  then have "(2::nat) ^ z < 2 ^ D" using assms(2) by (rule le_less_trans)
  then have z: "z < D" by simp
  have t1: "x + 1 - 1 = a + 1" "x + 1 - 2 = a" using a by simp_all
  have "mscb_loop (x + 1) D (D - 1) 0 = 0 + (D - 1 - z)"
  proof (rule mscb_loop_char [where z = z])
    show "(x + 1 - 1) AND push_bit z (1::nat) \<noteq> (x + 1 - 2) AND push_bit z 1"
      unfolding t1 and_mask_bit using succ_bits(1,2) [OF am m] by simp
    show "\<forall>c' > z. (x + 1 - 1) AND push_bit c' (1::nat) = (x + 1 - 2) AND push_bit c' 1"
      unfolding t1 and_mask_bit using succ_bits(3) [OF am m] by simp
    show "z \<le> D - 1" "D - 1 - z < D" using z by simp_all
  qed
  then have i: "mscb D (x + 1) = D - 1 - z"
    using assms(1) by (simp add: mscb_def)
  have e: "D - 1 - (D - 1 - z) = z" "D - (D - 1 - z) = Suc z" using z by simp_all
  have "\<not> 2 ^ Suc z dvd x"
  proof
    assume "2 ^ Suc z dvd x"
    then obtain k where "x = 2 ^ Suc z * k" by (auto elim: dvdE)
    then have "2 ^ z * m = 2 ^ z * (2 * k)" using x by simp
    then have "m = 2 * k" by simp
    with m show False by simp
  qed
  moreover have "2 ^ z dvd x" unfolding x by simp
  ultimately show ?thesis unfolding i e using z by simp
qed

lemma node_update_char:
  assumes "k < length (m_model n)" "r = 0 \<or> r = 1"
  shows "\<exists>e. KT_update (m_model n ! k) r = Inr e
    \<and> node_update n r k = Inr (n\<lparr>m_model := (m_model n)[k := e]\<rparr>)"
  using assms by (auto simp: node_update_def KT_update_bit)

text \<open>
  C1. In a model of depth \<open>D\<close> (from 1 to 30) with \<open>t - 1 = m_index < 2 ^ D\<close> samples
  absorbed, \<open>update r k\<close> on a valid arm \<open>k\<close> and bit \<open>r\<close> returns and performs the
  algorithm. The level \<open>i = mscb t\<close> is 0 at \<open>t = 1\<close>; at a later step it is the level with
  \<open>2 ^ (D - 1 - i)\<close> dividing \<open>t - 1\<close> and \<open>2 ^ (D - i)\<close> not dividing it: a segment of
  level \<open>i + 1\<close> starts at \<open>t\<close> inside a segment of level \<open>i\<close>. The buffer of node \<open>i\<close>
  holds the former weighted probability of node \<open>i + 1\<close>, the buffers above are untouched;
  the nodes \<open>i + 1 .. D\<close> restart from fresh nodes; at every level the KT estimator of arm
  \<open>k\<close> has absorbed \<open>r\<close> and the other estimators are unchanged; the weighted probability
  of level \<open>D\<close> is its marginal, and at every level \<open>j < D\<close> it is
  \<open>logAdd (LogStop + logMarginal j) (LogSplit + weighted (j + 1) + buf j)\<close>, where
  \<open>logAdd a b\<close> is \<open>ln (exp a + exp b)\<close> when \<open>a\<close> and \<open>b\<close> differ by less than 100 and the
  larger of the two otherwise.
\<close>

theorem ActivePTW_update_algorithm:
  assumes "wf_ptw st" and "k < m_arms st" and "r = 0 \<or> r = 1"
    and "m_index st < 2 ^ m_depth st"
  shows "mscb (m_depth st) 1 = 0
    \<and> (\<forall>a b. logAdd a b = (if \<bar>a - b\<bar> < 100 then ln (exp a + exp b) else max a b))
    \<and> (\<exists>st' i. i = mscb (m_depth st) (m_index st + 1) \<and> i < m_depth st
        \<and> (m_index st = 0 \<longrightarrow> i = 0)
        \<and> (0 < m_index st \<longrightarrow>
              2 ^ (m_depth st - 1 - i) dvd m_index st \<and> \<not> 2 ^ (m_depth st - i) dvd m_index st)
        \<and> ActivePTW_update st r k = Inr st'
        \<and> st' = st\<lparr>m_nodes := m_nodes st', m_index := m_index st + 1\<rparr>
        \<and> length (m_nodes st') = m_depth st + 1
        \<and> m_log_buf (m_nodes st' ! i) = m_log_weighted (m_nodes st ! (i + 1))
        \<and> (\<forall>j < i. m_log_buf (m_nodes st' ! j) = m_log_buf (m_nodes st ! j))
        \<and> (\<forall>j. i < j \<and> j \<le> m_depth st \<longrightarrow> m_log_buf (m_nodes st' ! j) = 0)
        \<and> (\<forall>j \<le> m_depth st. \<exists>e.
              KT_update (m_model (if j \<le> i then m_nodes st ! j
                                  else ActivePTWNode_init (m_arms st)) ! k) r = Inr e
              \<and> m_model (m_nodes st' ! j) =
                  (m_model (if j \<le> i then m_nodes st ! j
                            else ActivePTWNode_init (m_arms st)))[k := e])
        \<and> m_log_weighted (m_nodes st' ! m_depth st) = node_logMarginal (m_nodes st' ! m_depth st)
        \<and> (\<forall>j < m_depth st.
              m_log_weighted (m_nodes st' ! j) =
                logAdd (LogStopWeight st + node_logMarginal (m_nodes st' ! j))
                  (LogSplitWeight st + m_log_weighted (m_nodes st' ! (j + 1))
                    + m_log_buf (m_nodes st' ! j))))"
proof -
  define i where "i = mscb (m_depth st) (m_index st + 1)"
  have i: "i < m_depth st"
    unfolding i_def using assms(1) by (intro mscb_less_depth) (auto simp: wf_ptw_def)
  from update_char [OF assms]
  obtain ns' where run: "ActivePTW_update st r k = Inr (st\<lparr>m_nodes := ns', m_index := m_index st + 1\<rparr>)"
    and len: "length ns' = m_depth st + 1"
    and lvl: "\<forall>j \<le> m_depth st. \<exists>n1. node_update (staged st j) r k = Inr n1
          \<and> ns' ! j = n1\<lparr>m_log_weighted :=
               (if j = m_depth st then node_logMarginal n1
                else logAdd (LogStopWeight st + node_logMarginal n1)
                       (LogSplitWeight st + m_log_weighted (ns' ! (j + 1)) + m_log_buf n1))\<rparr>"
    by blast
  have stg_model: "m_model (staged st j) =
      m_model (if j \<le> i then m_nodes st ! j else ActivePTWNode_init (m_arms st))" for j
    by (auto simp: staged_def Let_def i_def)
  have stg_buf: "m_log_buf (staged st j) =
      (if j < i then m_log_buf (m_nodes st ! j)
       else if j = i then m_log_weighted (m_nodes st ! (i + 1)) else 0)" for j
    by (auto simp: staged_def Let_def i_def ActivePTWNode_init_def)
  have level: "\<exists>e. KT_update (m_model (staged st j) ! k) r = Inr e
      \<and> m_model (ns' ! j) = (m_model (staged st j))[k := e]
      \<and> m_log_buf (ns' ! j) = m_log_buf (staged st j)
      \<and> m_log_weighted (ns' ! j) =
          (if j = m_depth st then node_logMarginal (ns' ! j)
           else logAdd (LogStopWeight st + node_logMarginal (ns' ! j))
                  (LogSplitWeight st + m_log_weighted (ns' ! (j + 1)) + m_log_buf (ns' ! j)))"
    if j: "j \<le> m_depth st" for j
  proof -
    from lvl j obtain n1 where n1: "node_update (staged st j) r k = Inr n1"
      and eq: "ns' ! j = n1\<lparr>m_log_weighted :=
               (if j = m_depth st then node_logMarginal n1
                else logAdd (LogStopWeight st + node_logMarginal n1)
                       (LogSplitWeight st + m_log_weighted (ns' ! (j + 1)) + m_log_buf n1))\<rparr>"
      by blast
    have k': "k < length (m_model (staged st j))"
      using staged_arms [OF assms(1) j] assms(2) by simp
    from node_update_char [OF k' assms(3)] n1
    obtain e where e: "KT_update (m_model (staged st j) ! k) r = Inr e"
      "n1 = (staged st j)\<lparr>m_model := (m_model (staged st j))[k := e]\<rparr>"
      by auto
    have "m_model (ns' ! j) = (m_model (staged st j))[k := e]"
      and "m_log_buf (ns' ! j) = m_log_buf (staged st j)"
      by (subst eq, simp add: e(2))+
    moreover have "node_logMarginal (ns' ! j) = node_logMarginal n1"
      and "m_log_buf (ns' ! j) = m_log_buf n1"
      by (subst eq, simp)+
    moreover have "m_log_weighted (ns' ! j) = (if j = m_depth st then node_logMarginal n1
                else logAdd (LogStopWeight st + node_logMarginal n1)
                       (LogSplitWeight st + m_log_weighted (ns' ! (j + 1)) + m_log_buf n1))"
      by (subst eq) simp
    ultimately show ?thesis using e(1) by auto
  qed
  have buf_i: "m_log_buf (ns' ! i) = m_log_weighted (m_nodes st ! (i + 1))"
    using level [of i] i by (auto simp: stg_buf)
  have buf_above: "\<forall>j < i. m_log_buf (ns' ! j) = m_log_buf (m_nodes st ! j)"
  proof (intro allI impI)
    fix j assume "j < i"
    with level [of j] i show "m_log_buf (ns' ! j) = m_log_buf (m_nodes st ! j)"
      by (auto simp: stg_buf)
  qed
  have buf_below: "\<forall>j. i < j \<and> j \<le> m_depth st \<longrightarrow> m_log_buf (ns' ! j) = 0"
  proof (intro allI impI)
    fix j assume "i < j \<and> j \<le> m_depth st"
    with level [of j] show "m_log_buf (ns' ! j) = 0"
      by (auto simp: stg_buf)
  qed
  have kt: "\<forall>j \<le> m_depth st. \<exists>e.
      KT_update (m_model (if j \<le> i then m_nodes st ! j else ActivePTWNode_init (m_arms st)) ! k) r = Inr e
      \<and> m_model (ns' ! j) =
          (m_model (if j \<le> i then m_nodes st ! j else ActivePTWNode_init (m_arms st)))[k := e]"
  proof (intro allI impI)
    fix j assume "j \<le> m_depth st"
    from level [OF this] show "\<exists>e.
      KT_update (m_model (if j \<le> i then m_nodes st ! j else ActivePTWNode_init (m_arms st)) ! k) r = Inr e
      \<and> m_model (ns' ! j) =
          (m_model (if j \<le> i then m_nodes st ! j else ActivePTWNode_init (m_arms st)))[k := e]"
      unfolding stg_model by blast
  qed
  have wl_D: "m_log_weighted (ns' ! m_depth st) = node_logMarginal (ns' ! m_depth st)"
    using level [of "m_depth st"] by auto
  have wl: "\<forall>j < m_depth st. m_log_weighted (ns' ! j) =
      logAdd (LogStopWeight st + node_logMarginal (ns' ! j))
        (LogSplitWeight st + m_log_weighted (ns' ! (j + 1)) + m_log_buf (ns' ! j))"
  proof (intro allI impI)
    fix j assume "j < m_depth st"
    with level [of j] show "m_log_weighted (ns' ! j) =
      logAdd (LogStopWeight st + node_logMarginal (ns' ! j))
        (LogSplitWeight st + m_log_weighted (ns' ! (j + 1)) + m_log_buf (ns' ! j))"
      by auto
  qed
  have i_first: "m_index st = 0 \<longrightarrow> i = 0"
    by (simp add: i_def mscb_def)
  have i_level: "0 < m_index st \<longrightarrow>
      2 ^ (m_depth st - 1 - i) dvd m_index st \<and> \<not> 2 ^ (m_depth st - i) dvd m_index st"
    unfolding i_def using mscb_char [OF _ assms(4)] by blast
  have first: "mscb (m_depth st) 1 = 0" by (simp add: mscb_def)
  have la: "\<forall>a b. logAdd a b = (if \<bar>a - b\<bar> < 100 then ln (exp a + exp b) else max a b)"
    using logAdd_char by blast
  have ex: "\<exists>st' i. i = mscb (m_depth st) (m_index st + 1) \<and> i < m_depth st
        \<and> (m_index st = 0 \<longrightarrow> i = 0)
        \<and> (0 < m_index st \<longrightarrow>
              2 ^ (m_depth st - 1 - i) dvd m_index st \<and> \<not> 2 ^ (m_depth st - i) dvd m_index st)
        \<and> ActivePTW_update st r k = Inr st'
        \<and> st' = st\<lparr>m_nodes := m_nodes st', m_index := m_index st + 1\<rparr>
        \<and> length (m_nodes st') = m_depth st + 1
        \<and> m_log_buf (m_nodes st' ! i) = m_log_weighted (m_nodes st ! (i + 1))
        \<and> (\<forall>j < i. m_log_buf (m_nodes st' ! j) = m_log_buf (m_nodes st ! j))
        \<and> (\<forall>j. i < j \<and> j \<le> m_depth st \<longrightarrow> m_log_buf (m_nodes st' ! j) = 0)
        \<and> (\<forall>j \<le> m_depth st. \<exists>e.
              KT_update (m_model (if j \<le> i then m_nodes st ! j
                                  else ActivePTWNode_init (m_arms st)) ! k) r = Inr e
              \<and> m_model (m_nodes st' ! j) =
                  (m_model (if j \<le> i then m_nodes st ! j
                            else ActivePTWNode_init (m_arms st)))[k := e])
        \<and> m_log_weighted (m_nodes st' ! m_depth st) = node_logMarginal (m_nodes st' ! m_depth st)
        \<and> (\<forall>j < m_depth st.
              m_log_weighted (m_nodes st' ! j) =
                logAdd (LogStopWeight st + node_logMarginal (m_nodes st' ! j))
                  (LogSplitWeight st + m_log_weighted (m_nodes st' ! (j + 1))
                    + m_log_buf (m_nodes st' ! j)))"
    apply (rule exI [of _ "st\<lparr>m_nodes := ns', m_index := m_index st + 1\<rparr>"])
    apply (rule exI [of _ i])
    using i i_first i_level run len buf_i buf_above buf_below kt wl_D wl
    apply (simp add: i_def)
    done
  from first la ex show ?thesis by (intro conjI)
qed

text \<open>
  The second update of a model of depth 2 with two arms, after reward 1 on arm 0 and then
  reward 0 on arm 1: \<open>mscb 2 = 1\<close>, the buffer of node 1 takes the weighted probability
  \<open>ln (1 / 2)\<close> of node 2, node 2 restarts and forgets the sample of arm 0, node 1 keeps it.
\<close>

theorem ActivePTW_update_algorithm_witness:
  "\<exists>st1 st2. ActivePTW_update (ActivePTW_init 2 2) 1 0 = Inr st1
     \<and> wf_ptw st1 \<and> (1::nat) < m_arms st1 \<and> m_index st1 = 1 \<and> m_index st1 < 2 ^ m_depth st1
     \<and> mscb (m_depth st1) (m_index st1 + 1) = 1
     \<and> ActivePTW_update st1 0 1 = Inr st2 \<and> m_index st2 = 2
     \<and> m_model (m_nodes st1 ! 2) = [\<lparr>m_log_kt = ln (1 / 2), m_counts = (0, 1)\<rparr>, KTEstimator_init]
     \<and> m_log_weighted (m_nodes st1 ! 2) = ln (1 / 2)
     \<and> m_log_buf (m_nodes st2 ! 1) = ln (1 / 2)
     \<and> m_model (m_nodes st2 ! 2) = [KTEstimator_init, \<lparr>m_log_kt = ln (1 / 2), m_counts = (1, 0)\<rparr>]
     \<and> m_model (m_nodes st2 ! 1) =
         [\<lparr>m_log_kt = ln (1 / 2), m_counts = (0, 1)\<rparr>, \<lparr>m_log_kt = ln (1 / 2), m_counts = (1, 0)\<rparr>]
     \<and> m_log_weighted (m_nodes st2 ! 2) = ln (1 / 2)
     \<and> m_log_weighted (m_nodes st2 ! 1) =
         logAdd (ln (1 / 2) + (ln (1 / 2) + ln (1 / 2))) (ln (1 / 2) + ln (1 / 2) + ln (1 / 2))"
proof -
  let ?st0 = "ActivePTW_init 2 2"
  let ?one = "\<lparr>m_log_kt = ln (1 / 2), m_counts = (0::nat, 1::nat)\<rparr>"
  let ?zero = "\<lparr>m_log_kt = ln (1 / 2), m_counts = (1::nat, 0::nat)\<rparr>"
  have e1: "KT_update KTEstimator_init 1 = Inr ?one"
    and e0: "KT_update KTEstimator_init 0 = Inr ?zero"
    by (simp_all add: KT_update_bit KTEstimator_init_def)
  have wf0: "wf_ptw ?st0" by (simp add: wf_ptw_init)
  have i0: "mscb (m_depth ?st0) (m_index ?st0 + 1) = 0" by (simp add: mscb_def)
  from ActivePTW_update_algorithm [OF wf0, of 0 1]
  obtain st1 where run1: "ActivePTW_update ?st0 1 0 = Inr st1"
    and st1: "st1 = ?st0\<lparr>m_nodes := m_nodes st1, m_index := m_index ?st0 + 1\<rparr>"
    and len1: "length (m_nodes st1) = m_depth ?st0 + 1"
    and kt1: "\<forall>j \<le> m_depth ?st0. \<exists>e.
              KT_update (m_model (if j \<le> 0 then m_nodes ?st0 ! j
                                  else ActivePTWNode_init (m_arms ?st0)) ! 0) 1 = Inr e
              \<and> m_model (m_nodes st1 ! j) =
                  (m_model (if j \<le> 0 then m_nodes ?st0 ! j
                            else ActivePTWNode_init (m_arms ?st0)))[0 := e]"
    and wD1: "m_log_weighted (m_nodes st1 ! m_depth ?st0) = node_logMarginal (m_nodes st1 ! m_depth ?st0)"
    unfolding i0 by auto
  have sel1: "m_depth st1 = 2" "m_arms st1 = 2" "m_index st1 = 1"
    "LogStopWeight st1 = ln (1 / 2)" "LogSplitWeight st1 = ln (1 / 2)"
    by (subst st1, simp)+
  have pre0: "m_model (if j \<le> 0 then m_nodes ?st0 ! j else ActivePTWNode_init (m_arms ?st0)) =
      [KTEstimator_init, KTEstimator_init]" if "j \<le> 2" for j
    using that by (auto simp: numeral_2_eq_2 ActivePTWNode_init_def)
  have m1: "m_model (m_nodes st1 ! j) = [?one, KTEstimator_init]" if j: "j \<le> 2" for j
  proof -
    have "j \<le> m_depth ?st0" using j by simp
    with kt1 have "\<exists>e.
        KT_update (m_model (if j \<le> 0 then m_nodes ?st0 ! j
                            else ActivePTWNode_init (m_arms ?st0)) ! 0) 1 = Inr e
        \<and> m_model (m_nodes st1 ! j) =
            (m_model (if j \<le> 0 then m_nodes ?st0 ! j
                      else ActivePTWNode_init (m_arms ?st0)))[0 := e]"
      by blast
    then obtain e where "KT_update ([KTEstimator_init, KTEstimator_init] ! 0) 1 = Inr e"
      "m_model (m_nodes st1 ! j) = [KTEstimator_init, KTEstimator_init][0 := e]"
      unfolding pre0 [OF j] by blast
    then show ?thesis using e1 by simp
  qed
  have w12: "m_log_weighted (m_nodes st1 ! 2) = ln (1 / 2)"
    using wD1 m1 [of 2] by (simp add: node_logMarginal_def KT_logMarginal_def KTEstimator_init_def)
  have wf1: "wf_ptw st1"
    unfolding wf_ptw_def sel1
  proof (intro conjI ballI)
    show "length (m_nodes st1) = 2 + 1" using len1 by simp
    fix n assume "n \<in> set (m_nodes st1)"
    then obtain j where "j < 3" "n = m_nodes st1 ! j"
      using len1 by (auto simp: in_set_conv_nth)
    then show "length (m_model n) = 2" using m1 [of j] by simp
  qed simp_all
  have k1: "(1::nat) < m_arms st1" and ix1: "m_index st1 < 2 ^ m_depth st1"
    by (simp_all add: sel1)
  have i1: "mscb (m_depth st1) (m_index st1 + 1) = 1"
    by (simp add: sel1 mscb_def numeral_2_eq_2 Let_def)
  from ActivePTW_update_algorithm [OF wf1 k1 _ ix1, of 0]
  obtain st2 where run2: "ActivePTW_update st1 0 1 = Inr st2"
    and st2: "st2 = st1\<lparr>m_nodes := m_nodes st2, m_index := m_index st1 + 1\<rparr>"
    and buf2: "m_log_buf (m_nodes st2 ! 1) = m_log_weighted (m_nodes st1 ! (1 + 1))"
    and kt2: "\<forall>j \<le> m_depth st1. \<exists>e.
              KT_update (m_model (if j \<le> 1 then m_nodes st1 ! j
                                  else ActivePTWNode_init (m_arms st1)) ! 1) 0 = Inr e
              \<and> m_model (m_nodes st2 ! j) =
                  (m_model (if j \<le> 1 then m_nodes st1 ! j
                            else ActivePTWNode_init (m_arms st1)))[1 := e]"
    and wD2: "m_log_weighted (m_nodes st2 ! m_depth st1) = node_logMarginal (m_nodes st2 ! m_depth st1)"
    and wl2: "\<forall>j < m_depth st1.
              m_log_weighted (m_nodes st2 ! j) =
                logAdd (LogStopWeight st1 + node_logMarginal (m_nodes st2 ! j))
                  (LogSplitWeight st1 + m_log_weighted (m_nodes st2 ! (j + 1))
                    + m_log_buf (m_nodes st2 ! j))"
    unfolding i1 by auto
  have kt2': "\<exists>e.
              KT_update (m_model (if j \<le> 1 then m_nodes st1 ! j
                                  else ActivePTWNode_init (m_arms st1)) ! 1) 0 = Inr e
              \<and> m_model (m_nodes st2 ! j) =
                  (m_model (if j \<le> 1 then m_nodes st1 ! j
                            else ActivePTWNode_init (m_arms st1)))[1 := e]" if "j \<le> 2" for j
    using kt2 that by (simp add: sel1)
  have m22: "m_model (m_nodes st2 ! 2) = [KTEstimator_init, ?zero]"
    using kt2' [of 2] e0 by (auto simp: sel1 numeral_2_eq_2 ActivePTWNode_init_def)
  have m21: "m_model (m_nodes st2 ! 1) = [?one, ?zero]"
    using kt2' [of 1] e0 m1 [of 1] by auto
  have b21: "m_log_buf (m_nodes st2 ! 1) = ln (1 / 2)"
    using buf2 w12 by (simp add: numeral_2_eq_2)
  have w22: "m_log_weighted (m_nodes st2 ! 2) = ln (1 / 2)"
    using wD2 m22 by (simp add: sel1 node_logMarginal_def KT_logMarginal_def KTEstimator_init_def)
  have w21: "m_log_weighted (m_nodes st2 ! 1) =
         logAdd (ln (1 / 2) + (ln (1 / 2) + ln (1 / 2))) (ln (1 / 2) + ln (1 / 2) + ln (1 / 2))"
    using wl2 [rule_format, of 1] m21 w22 b21
    by (simp add: sel1 node_logMarginal_def KT_logMarginal_def numeral_2_eq_2)
  have ix2: "m_index st2 = 2" by (subst st2) (simp add: sel1)
  from run1 wf1 k1 sel1(3) ix1 i1 run2 ix2 m1 [of 2] w12 b21 m22 m21 w22 w21
  show ?thesis by blast
qed

lemma logAdd_ge_left: "a \<le> logAdd a b"
proof -
  have l: "x \<le> ln (1 + exp x)" for x :: real
  proof -
    have "exp x \<le> 1 + exp x" by simp
    then have "ln (exp x) \<le> ln (1 + exp x)"
      by (subst ln_le_cancel_iff) (simp_all add: add_pos_pos)
    then show ?thesis by simp
  qed
  have p: "0 \<le> ln (1 + exp x)" for x :: real
    by (rule ln_ge_zero) simp
  show ?thesis
  proof (cases "a > b")
    case True
    then show ?thesis using l [of "a - b"] by (simp add: logAdd_def Let_def)
  next
    case False
    then show ?thesis using p [of "b - a"] by (simp add: logAdd_def Let_def)
  qed
qed

lemma foldl_logMarginal_replicate:
  "foldl (\<lambda>rval e. rval + KT_logMarginal e) a (replicate n KTEstimator_init) = a"
  by (induction n arbitrary: a) (simp_all add: KT_logMarginal_def KTEstimator_init_def)

lemma node_logMarginal_init [simp]: "node_logMarginal (ActivePTWNode_init arms) = 0"
  by (simp add: node_logMarginal_def ActivePTWNode_init_def foldl_logMarginal_replicate)

lemma LogStop_nonpos:
  assumes "2 \<le> arms"
  shows "ln ((real arms - 1) / real arms) \<le> 0"
proof -
  have "0 < (real arms - 1) / real arms" "(real arms - 1) / real arms \<le> 1"
    using assms by simp_all
  then show ?thesis by (simp only: ln_le_zero_iff)
qed

lemma ActivePTWNode_init_sel [simp]:
  "m_model (ActivePTWNode_init arms) = replicate arms KTEstimator_init"
  "m_log_weighted (ActivePTWNode_init arms) = 0"
  "m_log_buf (ActivePTWNode_init arms) = 0"
  by (simp_all add: ActivePTWNode_init_def)

lemma ptw_inv_init:
  assumes "2 \<le> arms"
  shows "ptw_inv (ActivePTW_init depth arms)"
  using LogStop_nonpos [OF assms] by (simp add: ptw_inv_def)

lemma levelPosterior_step_ok:
  assumes i: "i < length (m_nodes st)" and inv: "ptw_inv st"
    and m: "0 \<le> mass" "mass \<le> 1"
  shows "\<exists>p. levelPosterior_step st i (mass, dest) = Inr (mass - p, dest @ [p])
    \<and> 0 \<le> p \<and> p \<le> mass"
proof -
  let ?sp = "exp (LogStopWeight st + node_logMarginal (m_nodes st ! i) - m_log_weighted (m_nodes st ! i))"
  have "LogStopWeight st + node_logMarginal (m_nodes st ! i) - m_log_weighted (m_nodes st ! i) \<le> 0"
    using inv i by (simp add: ptw_inv_def)
  then have sp: "?sp \<le> 1" by simp
  have p0: "0 \<le> mass * ?sp" using m by simp
  have p1: "mass * ?sp \<le> mass" using m sp by (simp add: mult_left_le)
  have p2: "mass * ?sp \<le> 1" using p1 m by linarith
  have q: "mass * (1 - ?sp) = mass - mass * ?sp" by (simp add: algebra_simps)
  have q0: "0 \<le> mass - mass * ?sp" "mass - mass * ?sp \<le> 1" using p0 p1 m by linarith+
  have q1: "max (mass * (1 - ?sp)) 0 = mass - mass * ?sp"
    using q0 by (simp only: q max_def if_False not_le split: if_splits) linarith
  have "levelPosterior_step st i (mass, dest) = Inr (mass - mass * ?sp, dest @ [mass * ?sp])"
    using i p0 p2 q0 by (simp add: levelPosterior_step_def Let_def q1)
  then show ?thesis using p0 p1 by blast
qed

lemma levelPosterior_loop_ok:
  assumes "n \<le> length (m_nodes st)" "ptw_inv st"
  shows "\<exists>mass dest. foldE (levelPosterior_step st) [0 ..< n] (1, []) = Inr (mass, dest)
    \<and> length dest = n \<and> 0 \<le> mass \<and> sum_list dest + mass = 1
    \<and> (\<forall>p \<in> set dest. 0 \<le> p \<and> p \<le> 1)"
  using assms(1)
proof (induction n)
  case 0
  then show ?case by simp
next
  case (Suc n)
  then obtain mass dest where run: "foldE (levelPosterior_step st) [0 ..< n] (1, []) = Inr (mass, dest)"
    and len: "length dest = n" and m0: "0 \<le> mass" and sum: "sum_list dest + mass = 1"
    and rng: "\<forall>p \<in> set dest. 0 \<le> p \<and> p \<le> 1"
    by auto
  have "0 \<le> sum_list dest" using rng by (simp add: sum_list_nonneg)
  then have m1: "mass \<le> 1" using sum by simp
  from levelPosterior_step_ok [OF _ assms(2) m0 m1, of n dest] Suc.prems
  obtain p where step: "levelPosterior_step st n (mass, dest) = Inr (mass - p, dest @ [p])"
    and p: "0 \<le> p" "p \<le> mass"
    by auto
  have "foldE (levelPosterior_step st) [0 ..< Suc n] (1, []) = Inr (mass - p, dest @ [p])"
    using run step by (simp add: foldE_append)
  moreover have "sum_list (dest @ [p]) + (mass - p) = 1" using sum by simp
  moreover have "\<forall>q \<in> set (dest @ [p]). 0 \<le> q \<and> q \<le> 1"
    using rng p m1 by auto
  ultimately show ?case using len p by auto
qed

lemma levelPosterior_ok:
  assumes "length (m_nodes st) = m_depth st + 1" "ptw_inv st"
  shows "\<exists>dest. levelPosterior st = Inr dest \<and> length dest = m_depth st + 1
    \<and> (\<forall>p \<in> set dest. 0 \<le> p \<and> p \<le> 1) \<and> sum_list dest \<le> 1"
proof -
  from levelPosterior_loop_ok [of "m_depth st + 1" st] assms
  obtain mass dest where "foldE (levelPosterior_step st) [0 ..< m_depth st + 1] (1, []) = Inr (mass, dest)"
    "length dest = m_depth st + 1" "0 \<le> mass" "sum_list dest + mass = 1"
    "\<forall>p \<in> set dest. 0 \<le> p \<and> p \<le> 1"
    by auto
  then show ?thesis by (auto simp: levelPosterior_def)
qed

lemma KT_update_Inr_bit: "KT_update e b = Inr e' \<Longrightarrow> b = 0 \<or> b = 1"
  by (auto simp: KT_update_def KT_prob_def counts_get_def split: sum.splits if_splits)

lemma node_update_Inr_pre:
  "node_update n r k = Inr n1 \<Longrightarrow> k < length (m_model n) \<and> (r = 0 \<or> r = 1)"
  by (auto simp: node_update_def bindE_eq_Inr nth_chk_def dest: KT_update_Inr_bit split: if_splits)

lemma mscb_depth_0 [simp]: "mscb 0 t = 0"
  by (simp add: mscb_def)

lemma update_Inr_pre:
  assumes run: "ActivePTW_update st r k = Inr st'"
    and len: "length (m_nodes st) = m_depth st + 1"
    and arms: "\<forall>n \<in> set (m_nodes st). length (m_model n) = m_arms st"
  shows "wf_ptw st \<and> k < m_arms st \<and> (r = 0 \<or> r = 1) \<and> m_index st < 2 ^ m_depth st"
proof -
  define D where "D = m_depth st"
  define i where "i = mscb D (m_index st + 1)"
  define fresh where "fresh = ActivePTWNode_init (m_arms st)"
  have d30: "D \<le> 30" and idx: "m_index st < 2 ^ D"
    using run by (auto simp: ActivePTW_update_def D_def split: if_splits)
  have eq: "ActivePTW_update st r k =
      bindE (nth_chk (m_nodes st) (i + 1)) (\<lambda>child.
      bindE (nth_chk (m_nodes st) i) (\<lambda>n.
      bindE (foldE (\<lambda>j ns. upd_chk ns j fresh) [i + 1 ..< D + 1]
               ((m_nodes st)[i := n\<lparr>m_log_buf := m_log_weighted child\<rparr>])) (\<lambda>ns.
      bindE (update_bottom r k D ns) (\<lambda>ns.
      bindE (update_loop (LogStopWeight st) (LogSplitWeight st) r k D ns) (\<lambda>ns.
      Inr (st\<lparr>m_nodes := ns, m_index := m_index st + 1\<rparr>))))))"
    using d30 idx unfolding ActivePTW_update_def Let_def i_def D_def fresh_def by simp
  have d1: "1 \<le> D"
  proof (rule ccontr)
    assume "\<not> 1 \<le> D"
    then have "D = 0" by simp
    then have "nth_chk (m_nodes st) (i + 1) = Inl OutOfRange"
      using len by (simp add: i_def nth_chk_def D_def)
    then show False using run eq by simp
  qed
  have wf: "wf_ptw st" using d1 d30 len arms by (simp add: wf_ptw_def D_def)
  have i: "i < D" unfolding i_def using d1 by (intro mscb_less_depth) auto
  from run eq obtain ns2 ns3 where
    ns2: "foldE (\<lambda>j ns. upd_chk ns j fresh) [i + 1 ..< D + 1]
            ((m_nodes st)[i := (m_nodes st ! i)\<lparr>m_log_buf := m_log_weighted (m_nodes st ! (i + 1))\<rparr>]) = Inr ns2"
    and ns3: "update_bottom r k D ns2 = Inr ns3"
    using i len by (auto simp: bindE_eq_Inr nth_chk_def D_def split: if_splits)
  from foldE_reset [where b = "D + 1" and a = "i + 1" and v = fresh
      and ns = "(m_nodes st)[i := (m_nodes st ! i)\<lparr>m_log_buf := m_log_weighted (m_nodes st ! (i + 1))\<rparr>]"]
    ns2 len
  have "ns2 ! D = fresh" "length ns2 = D + 1" using i by (auto simp: D_def)
  moreover from ns3 obtain n1 where "node_update (ns2 ! D) r k = Inr n1"
    by (auto simp: update_bottom_def bindE_eq_Inr nth_chk_def split: if_splits)
  ultimately have "k < m_arms st \<and> (r = 0 \<or> r = 1)"
    using node_update_Inr_pre [of fresh r k n1] by (simp add: fresh_def)
  then show ?thesis using wf idx by (simp add: D_def)
qed

lemma update_post:
  assumes wf: "wf_ptw st" and k: "k < m_arms st" and r: "r = 0 \<or> r = 1"
    and idx: "m_index st < 2 ^ m_depth st" and ls: "LogStopWeight st \<le> 0"
  shows "\<exists>st'. ActivePTW_update st r k = Inr st' \<and> wf_ptw st' \<and> ptw_inv st'
    \<and> m_index st' = m_index st + 1 \<and> m_depth st' = m_depth st \<and> m_arms st' = m_arms st
    \<and> LogStopWeight st' = LogStopWeight st"
proof -
  from update_char [OF wf k r idx]
  obtain ns' where run: "ActivePTW_update st r k = Inr (st\<lparr>m_nodes := ns', m_index := m_index st + 1\<rparr>)"
    and len: "length ns' = m_depth st + 1"
    and lvl: "\<forall>j \<le> m_depth st. \<exists>n1. node_update (staged st j) r k = Inr n1
          \<and> ns' ! j = n1\<lparr>m_log_weighted :=
               (if j = m_depth st then node_logMarginal n1
                else logAdd (LogStopWeight st + node_logMarginal n1)
                       (LogSplitWeight st + m_log_weighted (ns' ! (j + 1)) + m_log_buf n1))\<rparr>"
    by blast
  have node: "length (m_model n) = m_arms st \<and> LogStopWeight st + node_logMarginal n \<le> m_log_weighted n"
    if "n \<in> set ns'" for n
  proof -
    from that len obtain j where j: "j \<le> m_depth st" "n = ns' ! j"
      by (auto simp: in_set_conv_nth less_Suc_eq_le)
    from lvl j obtain n1 where n1: "node_update (staged st j) r k = Inr n1"
      and eq: "n = n1\<lparr>m_log_weighted :=
               (if j = m_depth st then node_logMarginal n1
                else logAdd (LogStopWeight st + node_logMarginal n1)
                       (LogSplitWeight st + m_log_weighted (ns' ! (j + 1)) + m_log_buf n1))\<rparr>"
      by blast
    have k': "k < length (m_model (staged st j))"
      using staged_arms [OF wf j(1)] k by simp
    from node_update_ok [OF k' r] n1 staged_arms [OF wf j(1)]
    have a: "length (m_model n1) = m_arms st" by auto
    have b: "LogStopWeight st + node_logMarginal n1 \<le>
        (if j = m_depth st then node_logMarginal n1
                else logAdd (LogStopWeight st + node_logMarginal n1)
                       (LogSplitWeight st + m_log_weighted (ns' ! (j + 1)) + m_log_buf n1))"
      using ls logAdd_ge_left by simp
    show ?thesis by (subst eq, subst eq, subst eq) (use a b in simp)
  qed
  have "wf_ptw (st\<lparr>m_nodes := ns', m_index := m_index st + 1\<rparr>)"
    using wf len node by (simp add: wf_ptw_def)
  moreover have "ptw_inv (st\<lparr>m_nodes := ns', m_index := m_index st + 1\<rparr>)"
    using node by (simp add: ptw_inv_def)
  ultimately show ?thesis using run by simp
qed

lemma update_ok:
  assumes wf: "wf_ptw st" and k: "k < m_arms st" and r: "r = 0 \<or> r = 1"
    and idx: "m_index st < 2 ^ m_depth st"
  shows "\<exists>st'. ActivePTW_update st r k = Inr st' \<and> wf_ptw st'
    \<and> m_index st' = m_index st + 1 \<and> m_depth st' = m_depth st \<and> m_arms st' = m_arms st"
proof -
  from update_char [OF wf k r idx]
  obtain ns' where run: "ActivePTW_update st r k = Inr (st\<lparr>m_nodes := ns', m_index := m_index st + 1\<rparr>)"
    and len: "length ns' = m_depth st + 1"
    and lvl: "\<forall>j \<le> m_depth st. \<exists>n1. node_update (staged st j) r k = Inr n1
          \<and> ns' ! j = n1\<lparr>m_log_weighted :=
               (if j = m_depth st then node_logMarginal n1
                else logAdd (LogStopWeight st + node_logMarginal n1)
                       (LogSplitWeight st + m_log_weighted (ns' ! (j + 1)) + m_log_buf n1))\<rparr>"
    by blast
  have node: "length (m_model n) = m_arms st" if "n \<in> set ns'" for n
  proof -
    from that len obtain j where j: "j \<le> m_depth st" "n = ns' ! j"
      by (auto simp: in_set_conv_nth less_Suc_eq_le)
    from lvl j obtain n1 w where n1: "node_update (staged st j) r k = Inr n1"
      and eq: "n = n1\<lparr>m_log_weighted := w\<rparr>"
      by blast
    have k': "k < length (m_model (staged st j))"
      using staged_arms [OF wf j(1)] k by simp
    from node_update_ok [OF k' r] n1 staged_arms [OF wf j(1)]
    have "length (m_model n1) = m_arms st" by auto
    then show ?thesis by (simp add: eq)
  qed
  have "wf_ptw (st\<lparr>m_nodes := ns', m_index := m_index st + 1\<rparr>)"
    using wf len node by (simp add: wf_ptw_def)
  then show ?thesis using run by simp
qed

lemma update_full:
  assumes "m_depth st \<le> 30" "m_index st = 2 ^ m_depth st"
  shows "ActivePTW_update st r k = Inl AssertFailed"
  using assms by (simp add: ActivePTW_update_def)

lemma ActivePTW_run_Cons:
  "ActivePTW_run st ((r, k) # obs) =
     (case ActivePTW_update st r k of Inl e \<Rightarrow> Inl e | Inr st' \<Rightarrow> ActivePTW_run st' obs)"
  by (simp add: ActivePTW_run_def split: sum.splits)

lemma ActivePTW_run_Nil [simp]: "ActivePTW_run st [] = Inr st"
  by (simp add: ActivePTW_run_def)

lemma run_ok:
  assumes "wf_ptw st" "\<forall>(r, k) \<in> set obs. (r = 0 \<or> r = 1) \<and> k < m_arms st"
    "m_index st + length obs \<le> 2 ^ m_depth st"
  shows "\<exists>st'. ActivePTW_run st obs = Inr st' \<and> wf_ptw st'
    \<and> m_index st' = m_index st + length obs \<and> m_depth st' = m_depth st \<and> m_arms st' = m_arms st"
  using assms
proof (induction obs arbitrary: st)
  case Nil
  then show ?case by simp
next
  case (Cons x obs)
  obtain r k where x: "x = (r, k)" by (cases x)
  from Cons.prems x have k: "k < m_arms st" and r: "r = 0 \<or> r = 1"
    and idx: "m_index st < 2 ^ m_depth st"
    by auto
  from update_ok [OF Cons.prems(1) k r idx]
  obtain st1 where st1: "ActivePTW_update st r k = Inr st1" "wf_ptw st1"
    "m_index st1 = m_index st + 1" "m_depth st1 = m_depth st" "m_arms st1 = m_arms st"
    by blast
  have "\<exists>st'. ActivePTW_run st1 obs = Inr st' \<and> wf_ptw st'
    \<and> m_index st' = m_index st1 + length obs \<and> m_depth st' = m_depth st1 \<and> m_arms st' = m_arms st1"
    using Cons.prems st1 by (intro Cons.IH) auto
  then show ?case using st1 by (auto simp: x ActivePTW_run_Cons)
qed

lemma run_overflow:
  assumes "wf_ptw st" "\<forall>(r, k) \<in> set obs. (r = 0 \<or> r = 1) \<and> k < m_arms st"
    "m_index st \<le> 2 ^ m_depth st" "2 ^ m_depth st < m_index st + length obs"
  shows "ActivePTW_run st obs = Inl AssertFailed"
  using assms
proof (induction obs arbitrary: st)
  case Nil
  then show ?case by simp
next
  case (Cons x obs)
  obtain r k where x: "x = (r, k)" by (cases x)
  show ?case
  proof (cases "m_index st = 2 ^ m_depth st")
    case True
    have "m_depth st \<le> 30" using Cons.prems(1) by (simp add: wf_ptw_def)
    from update_full [OF this True] show ?thesis by (simp add: x ActivePTW_run_Cons)
  next
    case False
    with Cons.prems have idx: "m_index st < 2 ^ m_depth st" by simp
    from Cons.prems x have k: "k < m_arms st" and r: "r = 0 \<or> r = 1" by auto
    from update_ok [OF Cons.prems(1) k r idx]
    obtain st1 where st1: "ActivePTW_update st r k = Inr st1" "wf_ptw st1"
      "m_index st1 = m_index st + 1" "m_depth st1 = m_depth st" "m_arms st1 = m_arms st"
      by blast
    have "ActivePTW_run st1 obs = Inl AssertFailed"
      using Cons.prems st1 idx by (intro Cons.IH) auto
    then show ?thesis using st1 by (simp add: x ActivePTW_run_Cons)
  qed
qed

lemma run_inv:
  assumes "ActivePTW_run st obs = Inr st'"
    and "length (m_nodes st) = m_depth st + 1"
    and "\<forall>n \<in> set (m_nodes st). length (m_model n) = m_arms st"
    and "ptw_inv st" and "LogStopWeight st \<le> 0"
  shows "length (m_nodes st') = m_depth st' + 1 \<and> ptw_inv st' \<and> m_depth st' = m_depth st"
  using assms
proof (induction obs arbitrary: st)
  case Nil
  then show ?case by simp
next
  case (Cons x obs)
  obtain r k where x: "x = (r, k)" by (cases x)
  from Cons.prems(1) obtain st1 where st1: "ActivePTW_update st r k = Inr st1"
    and rest: "ActivePTW_run st1 obs = Inr st'"
    by (auto simp: x ActivePTW_run_Cons split: sum.splits)
  from update_Inr_pre [OF st1 Cons.prems(2,3)]
  have pre: "wf_ptw st" "k < m_arms st" "r = 0 \<or> r = 1" "m_index st < 2 ^ m_depth st"
    by auto
  from update_post [OF pre Cons.prems(5)] st1
  have post: "wf_ptw st1" "ptw_inv st1" "m_depth st1 = m_depth st" "LogStopWeight st1 = LogStopWeight st"
    by auto
  have "length (m_nodes st') = m_depth st' + 1 \<and> ptw_inv st' \<and> m_depth st' = m_depth st1"
    using rest post Cons.prems(5) by (intro Cons.IH) (auto simp: wf_ptw_def)
  then show ?case using post by simp
qed

lemma levelPosterior_asserts_stop_weight:
  assumes "m_nodes st \<noteq> []"
    and "m_log_weighted (m_nodes st ! 0) < LogStopWeight st + node_logMarginal (m_nodes st ! 0)"
  shows "levelPosterior st = Inl AssertFailed"
proof -
  let ?x = "LogStopWeight st + node_logMarginal (m_nodes st ! 0) - m_log_weighted (m_nodes st ! 0)"
  have "0 < ?x" using assms(2) by simp
  then have big: "1 < exp ?x" by simp
  have n0: "nth_chk (m_nodes st) 0 = Inr (m_nodes st ! 0)"
    using assms(1) by (simp add: nth_chk_def)
  have step: "levelPosterior_step st 0 (1, []) = Inl AssertFailed"
    using big by (simp add: levelPosterior_step_def n0 Let_def)
  have "[0 ..< m_depth st + 1] = 0 # [1 ..< m_depth st + 1]"
    by (simp add: upt_rec)
  then have "foldE (levelPosterior_step st) [0 ..< m_depth st + 1] (1, []) = Inl AssertFailed"
    using step by simp
  then show ?thesis by (simp add: levelPosterior_def)
qed

text \<open>
  C2. In exact arithmetic, after any sequence of updates of a model with two arms at
  least, \<open>levelPosterior\<close> returns (both assertions of its loop and the one on the size
  hold) a vector of \<open>D + 1\<close> entries, each in \<open>[0, 1]\<close>, whose sum is at most 1: \<open>update\<close>
  keeps \<open>LogStop + logMarginal \<le> weighted\<close> at every node, since \<open>logAdd\<close> is at least
  each of its arguments. The assertion on the entries tests that inequality at node 0
  (\<open>levelPosterior_asserts_stop_weight\<close>).

  The doubles of the source do not keep the inequality. \<open>logAdd\<close> adds \<open>log_x\<close> to the
  rounded \<open>log1p (exp (log_y - log_x))\<close>, and the sum can be the double just below
  \<open>log_y\<close>. With depth 13 and 1000 arms, after the 7486 updates \<open>update (0, t mod 8)\<close> for
  \<open>t = 0, \<dots>, 7485\<close>, node 0 has \<open>LogStop + logMarginal = -31.94638166413223\<close> and the
  weighted probability \<open>-31.946381664132232\<close>: the entry of level 0 is
  \<open>1.0000000000000036\<close> and the assertion fails. The statement below is about exact
  arithmetic only.
\<close>

lemma levelPosterior_exact_arithmetic:
  assumes "2 \<le> arms" and "ActivePTW_run (ActivePTW_init depth arms) obs = Inr st"
  shows "\<exists>dest. levelPosterior st = Inr dest \<and> length dest = depth + 1
    \<and> (\<forall>p \<in> set dest. 0 \<le> p \<and> p \<le> 1) \<and> sum_list dest \<le> 1"
proof -
  have "length (m_nodes st) = m_depth st + 1 \<and> ptw_inv st \<and> m_depth st = m_depth (ActivePTW_init depth arms)"
    using assms(2)
  proof (rule run_inv)
    show "ptw_inv (ActivePTW_init depth arms)" using assms(1) by (rule ptw_inv_init)
    show "LogStopWeight (ActivePTW_init depth arms) \<le> 0"
      using LogStop_nonpos [OF assms(1)] by simp
  qed simp_all
  then have "length (m_nodes st) = m_depth st + 1" "ptw_inv st" "m_depth st = depth"
    by simp_all
  from levelPosterior_ok [OF this(1,2)] this(3) show ?thesis by simp
qed

lemma levelPosterior_exact_arithmetic_run:
  "\<exists>st. ActivePTW_run (ActivePTW_init 2 2) [(1, 0), (0, 1), (1, 0)] = Inr st
     \<and> (\<exists>dest. levelPosterior st = Inr dest \<and> length dest = 3
          \<and> list_all (\<lambda>p. 0 \<le> p \<and> p \<le> 1) dest \<and> sum_list dest \<le> 1)"
proof -
  have "\<exists>st'. ActivePTW_run (ActivePTW_init 2 2) [(1, 0), (0, 1), (1, 0)] = Inr st' \<and> wf_ptw st'
    \<and> m_index st' = m_index (ActivePTW_init 2 2) + length [(1::int, 0::nat), (0, 1), (1, 0)]
    \<and> m_depth st' = m_depth (ActivePTW_init 2 2) \<and> m_arms st' = m_arms (ActivePTW_init 2 2)"
    by (rule run_ok) (simp_all add: wf_ptw_init)
  then obtain st where st: "ActivePTW_run (ActivePTW_init 2 2) [(1, 0), (0, 1), (1, 0)] = Inr st"
    by blast
  from levelPosterior_exact_arithmetic [OF _ st] st show ?thesis
    by (auto simp: list_all_iff)
qed

lemma aptw_run_model:
  "ActivePTWBanditStrategy_run s obs =
     (case ActivePTW_run (m_model_aptw s) (map (\<lambda>(arm, reward). (reward, arm)) obs) of
        Inl e \<Rightarrow> Inl e | Inr m \<Rightarrow> Inr (s\<lparr>m_model_aptw := m\<rparr>))"
proof (induction obs arbitrary: s)
  case Nil
  then show ?case by (simp add: ActivePTWBanditStrategy_run_def)
next
  case (Cons x obs)
  obtain arm reward where x: "x = (arm, reward)" by (cases x)
  have "ActivePTWBanditStrategy_run s (x # obs) =
      (case ActivePTWBanditStrategy_update s arm reward of Inl e \<Rightarrow> Inl e
       | Inr s' \<Rightarrow> ActivePTWBanditStrategy_run s' obs)"
    by (simp add: ActivePTWBanditStrategy_run_def x split: sum.splits)
  then show ?case
    by (simp add: Cons.IH x ActivePTW_run_Cons ActivePTWBanditStrategy_update_def
        bindE_def split: sum.splits)
qed

lemma pptw_run_aptw:
  "ParanoidPTWBanditStrategy_run p obs =
     (case ActivePTWBanditStrategy_run (m_aptw p) obs of
        Inl e \<Rightarrow> Inl e
      | Inr a \<Rightarrow> Inr (p\<lparr>m_aptw := a, m_trials := m_trials p + length obs\<rparr>))"
proof (induction obs arbitrary: p)
  case Nil
  then show ?case
    by (simp add: ParanoidPTWBanditStrategy_run_def ActivePTWBanditStrategy_run_def)
next
  case (Cons x obs)
  obtain arm reward where x: "x = (arm, reward)" by (cases x)
  have a: "ParanoidPTWBanditStrategy_run p (x # obs) =
      (case ParanoidPTWBanditStrategy_update p arm reward of Inl e \<Rightarrow> Inl e
       | Inr p' \<Rightarrow> ParanoidPTWBanditStrategy_run p' obs)"
    by (simp add: ParanoidPTWBanditStrategy_run_def x split: sum.splits)
  have b: "ActivePTWBanditStrategy_run (m_aptw p) (x # obs) =
      (case ActivePTWBanditStrategy_update (m_aptw p) arm reward of Inl e \<Rightarrow> Inl e
       | Inr s' \<Rightarrow> ActivePTWBanditStrategy_run s' obs)"
    by (simp add: ActivePTWBanditStrategy_run_def x split: sum.splits)
  show ?case
    by (simp add: a b Cons.IH ParanoidPTWBanditStrategy_update_def bindE_def split: sum.splits)
qed

text \<open>
  C10. \<open>ActivePTWBanditStrategy\<close>, and \<open>ParanoidPTWBanditStrategy\<close> which wraps it, build
  their model with depth 30 whatever the arguments. Every run of at most \<open>2 ^ 30\<close> valid
  updates passes the assertion \<open>m_index < 2 ^ 30\<close> of \<open>ActivePTW::update\<close> at every call,
  and a longer run fails that assertion: the policy absorbs \<open>2 ^ 30\<close> observations at most.
\<close>

theorem ActivePTWBanditStrategy_depth_30:
  assumes "valid_obs n_arms obs"
  shows "m_depth (m_model_aptw (ActivePTWBanditStrategy_init n_arms)) = 30
    \<and> m_depth (m_model_aptw (m_aptw (ParanoidPTWBanditStrategy_init n_arms))) = 30
    \<and> (length obs \<le> 2 ^ 30 \<longrightarrow>
         (\<exists>s. ActivePTWBanditStrategy_run (ActivePTWBanditStrategy_init n_arms) obs = Inr s
            \<and> m_index (m_model_aptw s) = length obs)
         \<and> (\<exists>p. ParanoidPTWBanditStrategy_run (ParanoidPTWBanditStrategy_init n_arms) obs = Inr p
            \<and> m_index (m_model_aptw (m_aptw p)) = length obs \<and> m_trials p = length obs))
    \<and> (2 ^ 30 < length obs \<longrightarrow>
         ActivePTWBanditStrategy_run (ActivePTWBanditStrategy_init n_arms) obs = Inl AssertFailed
         \<and> ParanoidPTWBanditStrategy_run (ParanoidPTWBanditStrategy_init n_arms) obs = Inl AssertFailed)"
proof -
  let ?m = "ActivePTW_init 30 n_arms"
  let ?obs = "map (\<lambda>(arm, reward). (reward, arm)) obs"
  have wf: "wf_ptw ?m" by (simp add: wf_ptw_init)
  have valid: "\<forall>(r, k) \<in> set ?obs. (r = 0 \<or> r = 1) \<and> k < m_arms ?m"
    using assms by (auto simp: valid_obs_def)
  have ok: "\<exists>st'. ActivePTW_run ?m ?obs = Inr st' \<and> m_index st' = length obs"
    if "length obs \<le> 2 ^ 30"
    using run_ok [OF wf valid] that by auto
  have over: "ActivePTW_run ?m ?obs = Inl AssertFailed" if "2 ^ 30 < length obs"
    using run_overflow [OF wf valid] that by simp
  show ?thesis
    using ok over
    by (auto simp: pptw_run_aptw aptw_run_model ActivePTWBanditStrategy_init_def
        ParanoidPTWBanditStrategy_init_def)
qed

theorem ActivePTWBanditStrategy_depth_30_witness:
  "m_depth (m_model_aptw (ActivePTWBanditStrategy_init 2)) = 30
   \<and> (\<exists>s. ActivePTWBanditStrategy_run (ActivePTWBanditStrategy_init 2) [(0, 1), (1, 0)] = Inr s
        \<and> m_index (m_model_aptw s) = 2)
   \<and> (\<exists>p. ParanoidPTWBanditStrategy_run (ParanoidPTWBanditStrategy_init 2) [(0, 1), (1, 0)] = Inr p
        \<and> m_trials p = 2)"
proof -
  have "valid_obs 2 [(0, 1), (1, 0)]" by (simp add: valid_obs_def)
  from ActivePTWBanditStrategy_depth_30 [OF this] show ?thesis by auto
qed

section \<open>Proofs: forced exploration of the paranoid policy\<close>

text \<open>
  The bracket \<open>2 powr (k / 2) - k * ln 2\<close> is positive for every \<open>k\<close>: by \<open>1 + y \<le> exp y\<close>
  at \<open>y = (k / 2 - 1) * ln 2\<close> it is at least \<open>2 - 2 * ln 2\<close>, and \<open>ln 2 < 1\<close>.
\<close>

lemma powr_half_gt_linear:
  fixes x :: real
  shows "x * ln 2 < 2 powr (x / 2)"
proof -
  have "1 + (x / 2 - 1) * ln 2 \<le> exp ((x / 2 - 1) * ln 2)"
    by (rule exp_ge_add_one_self)
  also have "\<dots> = 2 powr (x / 2 - 1)"
    by (simp add: powr_def mult.commute)
  finally have "2 * (1 + (x / 2 - 1) * ln 2) \<le> 2 * 2 powr (x / 2 - 1)"
    by simp
  also have "2 * 2 powr (x / 2 - 1) = 2 powr (x / 2)"
    by (simp add: powr_diff)
  finally have "2 + (x - 2) * ln 2 \<le> 2 powr (x / 2)"
    by (simp add: algebra_simps)
  moreover have "x * ln 2 < 2 + (x - 2) * ln 2"
    using ln_2_less_1 by (simp add: algebra_simps)
  ultimately show ?thesis by linarith
qed

lemma exploreProb_raw_pos:
  fixes k :: real
  shows "0 < 2 powr (- k) * (2 powr (k / 2) - k * ln 2)"
  using powr_half_gt_linear [of k] by simp

lemma exploreProb_raw_less_one:
  fixes k :: real
  assumes "0 < k"
  shows "2 powr (- k) * (2 powr (k / 2) - k * ln 2) < 1"
proof -
  have "2 powr (- k) * (2 powr (k / 2) - k * ln 2) < 2 powr (- k) * 2 powr (k / 2)"
    using assms by (intro mult_strict_left_mono) simp_all
  also have "\<dots> = 2 powr (- (k / 2))"
    by (simp add: powr_add [symmetric])
  also have "\<dots> < 2 powr 0"
    using assms by (intro powr_less_mono) simp_all
  finally show ?thesis by simp
qed

lemma exploreProb_small:
  assumes "k \<le> 1074"
  shows "exploreProb k =
    Inr (Fin (min 1 (2 powr (- real k) * (2 powr (real k / 2) - real k * ln 2))))"
proof -
  let ?x = "2 powr (- real k) * (2 powr (real k / 2) - real k * ln 2)"
  have pos: "0 < ?x" by (rule exploreProb_raw_pos)
  have p1: "dpow2 (- real k) = Fin (2 powr (- real k))"
    using assms by (simp add: dpow2_def)
  have p2: "dpow2 (real k / 2) = Fin (2 powr (real k / 2))"
    using assms by (simp add: dpow2_def)
  have prob: "dmul (Fin 1) (dmul (dpow2 (- real k)) (dsub (dpow2 (real k / 2)) (Fin (real k * ln 2)))) = Fin ?x"
    unfolding p1 p2 by (simp add: dsub_def)
  have m: "dmin (Fin 1) (Fin ?x) = Fin (min 1 ?x)"
    by (simp add: dmin_def min_def)
  have ok: "dge (Fin (min 1 ?x)) (Fin 0) \<and> dle (Fin (min 1 ?x)) (Fin 1)"
    using pos by (simp add: dge_def dle_def min_def)
  show ?thesis
    unfolding exploreProb_def Let_def prob m using ok by simp
qed

lemma exploreProb_underflow:
  assumes "1075 \<le> k" "k \<le> 2047"
  shows "exploreProb k = Inr (Fin 0)"
proof -
  have p1: "dpow2 (- real k) = Fin 0"
    using assms by (simp add: dpow2_def)
  have p2: "dpow2 (real k / 2) = Fin (2 powr (real k / 2))"
    using assms by (simp add: dpow2_def)
  have prob: "dmul (Fin 1) (dmul (dpow2 (- real k)) (dsub (dpow2 (real k / 2)) (Fin (real k * ln 2)))) = Fin 0"
    unfolding p1 p2 by (simp add: dsub_def)
  show ?thesis
    unfolding exploreProb_def Let_def prob by (simp add: dmin_def dge_def dle_def)
qed

lemma exploreProb_overflow:
  assumes "2048 \<le> k"
  shows "exploreProb k = Inr (Fin 1)"
proof -
  have p1: "dpow2 (- real k) = Fin 0"
    using assms by (simp add: dpow2_def)
  have p2: "dpow2 (real k / 2) = PInf"
    using assms by (simp add: dpow2_def)
  have prob: "dmul (Fin 1) (dmul (dpow2 (- real k)) (dsub (dpow2 (real k / 2)) (Fin (real k * ln 2)))) = NaN"
    unfolding p1 p2 by (simp add: dsub_def)
  show ?thesis
    unfolding exploreProb_def Let_def prob by (simp add: dmin_def dge_def dle_def)
qed

text \<open>
  C8, amended. For every natural number \<open>k \<le> 1074\<close>, \<open>exploreProb k\<close> returns
  \<open>min 1 (2 powr (- k) * (2 powr (k / 2) - k * ln 2))\<close>, which is that value clamped at 0
  from below since it is positive. For \<open>1075 \<le> k \<le> 2047\<close> the power \<open>2 powr (- k)\<close>
  underflows and the result is 0; for \<open>2048 \<le> k\<close> the power \<open>2 powr (k / 2)\<close> overflows,
  the product is NaN and \<open>std::min\<close> returns 1. For every \<open>k\<close> the value returned is in
  \<open>[0, 1]\<close>: the assertion holds without a \<open>max\<close> in the code.
\<close>

theorem exploreProb_range:
  "(k \<le> 1074 \<longrightarrow>
      exploreProb k =
        Inr (Fin (max 0 (min 1 (2 powr (- real k) * (2 powr (real k / 2) - real k * ln 2))))))
   \<and> (1075 \<le> k \<and> k \<le> 2047 \<longrightarrow> exploreProb k = Inr (Fin 0))
   \<and> (2048 \<le> k \<longrightarrow> exploreProb k = Inr (Fin 1))
   \<and> (\<exists>p. exploreProb k = Inr (Fin p) \<and> 0 \<le> p \<and> p \<le> 1)"
proof -
  let ?x = "2 powr (- real k) * (2 powr (real k / 2) - real k * ln 2)"
  have pos: "0 < ?x" by (rule exploreProb_raw_pos)
  then have mx: "max 0 (min 1 ?x) = min 1 ?x" by simp
  have small: "k \<le> 1074 \<longrightarrow> exploreProb k = Inr (Fin (max 0 (min 1 ?x)))"
    unfolding mx using exploreProb_small by blast
  have under: "1075 \<le> k \<and> k \<le> 2047 \<longrightarrow> exploreProb k = Inr (Fin 0)"
    using exploreProb_underflow by blast
  have over: "2048 \<le> k \<longrightarrow> exploreProb k = Inr (Fin 1)"
    using exploreProb_overflow by blast
  have "k \<le> 1074 \<or> (1075 \<le> k \<and> k \<le> 2047) \<or> 2048 \<le> k" by arith
  then have "\<exists>p. exploreProb k = Inr (Fin p) \<and> 0 \<le> p \<and> p \<le> 1"
  proof (elim disjE)
    assume "k \<le> 1074"
    then have "exploreProb k = Inr (Fin (min 1 ?x))" by (rule exploreProb_small)
    moreover have "0 \<le> min 1 ?x" "min 1 ?x \<le> 1" using pos by simp_all
    ultimately show ?thesis by blast
  next
    assume "1075 \<le> k \<and> k \<le> 2047"
    then have "exploreProb k = Inr (Fin 0)" using exploreProb_underflow by blast
    then show ?thesis by simp
  next
    assume "2048 \<le> k"
    then have "exploreProb k = Inr (Fin 1)" by (rule exploreProb_overflow)
    then show ?thesis by simp
  qed
  with small under over show ?thesis by blast
qed

theorem exploreProb_range_witness:
  "exploreProb 4 = Inr (Fin (max 0 (min 1 (2 powr (- real 4) * (2 powr (real 4 / 2) - real 4 * ln 2)))))
   \<and> exploreProb 1075 = Inr (Fin 0)
   \<and> exploreProb 2048 = Inr (Fin 1)"
  using exploreProb_range [of 4] exploreProb_range [of 1075] exploreProb_range [of 2048]
  by simp

text \<open>
  At \<open>k = 2048\<close> the source returns 1, and the value of the formula is below 1.
\<close>

theorem exploreProb_overflow_counterexample:
  "exploreProb 2048 = Inr (Fin 1)
   \<and> max 0 (min 1 (2 powr (- real 2048) * (2 powr (real 2048 / 2) - real 2048 * ln 2))) < 1"
proof -
  have p1: "dpow2 (- real 2048) = Fin 0" and p2: "dpow2 (real 2048 / 2) = PInf"
    by (simp_all add: dpow2_def)
  have "exploreProb 2048 = Inr (Fin 1)"
    unfolding exploreProb_def Let_def p1 p2
    by (simp add: dsub_def dmin_def dge_def dle_def)
  moreover have "2 powr (- real 2048) * (2 powr (real 2048 / 2) - real 2048 * ln 2) < 1"
    by (rule exploreProb_raw_less_one) simp
  ultimately show ?thesis by simp
qed

section \<open>Proofs: Bernoulli relative entropy\<close>




section \<open>Proofs: the UCB family plays every arm first\<close>

lemma unvisitedArms_of_char:
  assumes "arms \<le> length visits"
  shows "unvisitedArms_of arms visits = Inr (filter (\<lambda>arm. visits ! arm = 0) [0 ..< arms])"
  using assms
proof (induction arms)
  case 0
  then show ?case by (simp add: unvisitedArms_of_def)
next
  case (Suc arms)
  then show ?case
    by (simp add: unvisitedArms_of_def foldE_append)
qed

lemma choose_unvisited:
  assumes "unvisited \<noteq> []"
  shows "\<exists>a. choose_action unvisited draw score arms = Inr a \<and> a \<in> set unvisited"
  using assms by (simp add: choose_action_def)

lemma play_generic:
  fixes getAction :: "'s \<Rightarrow> nat \<Rightarrow> error + nat"
    and update :: "'s \<Rightarrow> nat \<Rightarrow> int \<Rightarrow> error + 's"
    and inv :: "nat list \<Rightarrow> 's \<Rightarrow> bool"
  assumes step: "\<And>s seen draw reward. inv seen s \<Longrightarrow> distinct seen \<Longrightarrow> set seen \<subseteq> {0 ..< K}
      \<Longrightarrow> length seen < K
      \<Longrightarrow> \<exists>a s'. getAction s draw = Inr a \<and> a < K \<and> a \<notin> set seen
            \<and> update s a reward = Inr s' \<and> (length seen + 1 < K \<longrightarrow> inv (seen @ [a]) s')"
    and "inv seen s" "distinct seen" "set seen \<subseteq> {0 ..< K}"
    and "length seen + length rounds \<le> K"
  shows "\<exists>acts s'. play getAction update s rounds = Inr (acts, s')
    \<and> length acts = length rounds \<and> distinct (seen @ acts) \<and> set acts \<subseteq> {0 ..< K}"
  using assms(2-)
proof (induction rounds arbitrary: s seen)
  case Nil
  then show ?case by simp
next
  case (Cons x rounds)
  obtain draw reward where x: "x = (draw, reward)" by (cases x)
  from Cons.prems have lt: "length seen < K" by simp
  from step [OF Cons.prems(1-3) lt, of draw reward]
  obtain a s1 where a: "getAction s draw = Inr a" "a < K" "a \<notin> set seen"
    and s1: "update s a reward = Inr s1"
    and inv1: "length seen + 1 < K \<longrightarrow> inv (seen @ [a]) s1"
    by blast
  show ?case
  proof (cases rounds)
    case Nil
    then show ?thesis using a s1 Cons.prems by (simp add: x)
  next
    case (Cons y ys)
    with Cons.prems x have "length seen + 1 < K" by simp
    with inv1 have i1: "inv (seen @ [a]) s1" by simp
    have "\<exists>acts s'. play getAction update s1 rounds = Inr (acts, s')
      \<and> length acts = length rounds \<and> distinct ((seen @ [a]) @ acts) \<and> set acts \<subseteq> {0 ..< K}"
      using i1 a Cons.prems by (intro Cons.IH) auto
    then show ?thesis using a s1 by (auto simp: x)
  qed
qed

lemma distinct_all_arms:
  assumes "distinct acts" "set acts \<subseteq> {0 ..< K}" "length acts = K"
  shows "set acts = {0 ..< K}"
proof -
  have "card (set acts) = K" using assms by (simp add: distinct_card)
  then show ?thesis using assms(2) by (simp add: card_subset_eq)
qed

lemma some_arm_unseen:
  assumes "distinct seen" "set seen \<subseteq> {0 ..< K}" "length seen < K"
  shows "\<exists>a < K. a \<notin> set seen"
proof (rule ccontr)
  assume "\<not> (\<exists>a < K. a \<notin> set seen)"
  then have "{0 ..< K} \<subseteq> set seen" by auto
  then have "card {0 ..< K} \<le> card (set seen)" by (intro card_mono) simp_all
  then show False using assms by (simp add: distinct_card)
qed

lemma unvisited_pick:
  assumes vm: "visits_match K seen visits"
    and "distinct seen" "set seen \<subseteq> {0 ..< K}" "length seen < K"
  shows "\<exists>unv a. unvisitedArms_of K visits = Inr unv
    \<and> choose_action unv draw score K = Inr a \<and> a < K \<and> a \<notin> set seen"
proof -
  let ?unv = "filter (\<lambda>arm. visits ! arm = 0) [0 ..< K]"
  have unv: "unvisitedArms_of K visits = Inr ?unv"
    using vm by (intro unvisitedArms_of_char) (simp add: visits_match_def)
  from some_arm_unseen [OF assms(2-4)] obtain b where "b < K" "b \<notin> set seen" by blast
  then have "b \<in> set ?unv" using vm by (simp add: visits_match_def)
  then have "?unv \<noteq> []" by (metis empty_iff empty_set)
  from choose_unvisited [OF this, of draw score K]
  obtain a where a: "choose_action ?unv draw score K = Inr a" "a \<in> set ?unv" by blast
  then have "a < K" "visits ! a = 0" by simp_all
  then have "a \<notin> set seen" using vm by (auto simp: visits_match_def split: if_splits)
  then show ?thesis using unv a \<open>a < K\<close> by blast
qed

lemma visits_match_update:
  assumes "visits_match K seen visits" "a < K" "a \<notin> set seen"
  shows "visits_match K (seen @ [a]) (visits[a := visits ! a + 1])"
  using assms by (auto simp: visits_match_def nth_list_update)

lemma visits_match_init: "visits_match K [] (replicate K 0)"
  by (simp add: visits_match_def)

lemma ucb_step:
  assumes "ucb_inv K seen s" "distinct seen" "set seen \<subseteq> {0 ..< K}" "length seen < K"
  shows "\<exists>a s'. UCB_getAction s draw = Inr a \<and> a < K \<and> a \<notin> set seen
    \<and> UCB_update s a reward = Inr s' \<and> (length seen + 1 < K \<longrightarrow> ucb_inv K (seen @ [a]) s')"
proof -
  from assms(1) have vm: "visits_match K seen (m_arm_visits_ucb s)"
    and k: "m_arms_ucb s = K" and len: "length (m_arm_cumm_reward_ucb s) = K"
    by (simp_all add: ucb_inv_def)
  from unvisited_pick [OF vm assms(2-4), of draw "UCB_ucb s"]
  obtain a where a: "UCB_getAction s draw = Inr a" "a < K" "a \<notin> set seen"
    by (auto simp: UCB_getAction_def UCB_unvisitedArms_def k)
  have lv: "length (m_arm_visits_ucb s) = K" using vm by (simp add: visits_match_def)
  have "UCB_update s a reward = Inr (s\<lparr>m_arm_cumm_reward_ucb :=
      (m_arm_cumm_reward_ucb s)[a := m_arm_cumm_reward_ucb s ! a + real_of_int reward],
      m_arm_visits_ucb := (m_arm_visits_ucb s)[a := m_arm_visits_ucb s ! a + 1],
      m_visits_ucb := m_visits_ucb s + 1\<rparr>)"
    using a(2) len lv by (simp add: UCB_update_def)
  moreover have "ucb_inv K (seen @ [a]) (s\<lparr>m_arm_cumm_reward_ucb :=
      (m_arm_cumm_reward_ucb s)[a := m_arm_cumm_reward_ucb s ! a + real_of_int reward],
      m_arm_visits_ucb := (m_arm_visits_ucb s)[a := m_arm_visits_ucb s ! a + 1],
      m_visits_ucb := m_visits_ucb s + 1\<rparr>)"
    using visits_match_update [OF vm a(2,3)] k len by (simp add: ucb_inv_def)
  ultimately show ?thesis using a by blast
qed

lemma klucb_step:
  assumes "klucb_inv K seen s" "distinct seen" "set seen \<subseteq> {0 ..< K}" "length seen < K"
  shows "\<exists>a s'. KLUCB_getAction s draw = Inr a \<and> a < K \<and> a \<notin> set seen
    \<and> KLUCB_update s a reward = Inr s' \<and> (length seen + 1 < K \<longrightarrow> klucb_inv K (seen @ [a]) s')"
proof -
  from assms(1) have vm: "visits_match K seen (m_arm_visits_kl s)"
    and k: "m_arms_kl s = K" and len: "length (m_arm_successes_kl s) = K"
    by (simp_all add: klucb_inv_def)
  from unvisited_pick [OF vm assms(2-4), of draw "KLUCB_klUCB s"]
  obtain a where a: "KLUCB_getAction s draw = Inr a" "a < K" "a \<notin> set seen"
    by (auto simp: KLUCB_getAction_def KLUCB_unvisitedArms_def k)
  have lv: "length (m_arm_visits_kl s) = K" using vm by (simp add: visits_match_def)
  have "KLUCB_update s a reward = Inr (s\<lparr>m_arm_successes_kl :=
      (m_arm_successes_kl s)[a := m_arm_successes_kl s ! a + real_of_int reward],
      m_arm_visits_kl := (m_arm_visits_kl s)[a := m_arm_visits_kl s ! a + 1],
      m_visits_kl := m_visits_kl s + 1\<rparr>)"
    using a(2) len lv by (simp add: KLUCB_update_def)
  moreover have "klucb_inv K (seen @ [a]) (s\<lparr>m_arm_successes_kl :=
      (m_arm_successes_kl s)[a := m_arm_successes_kl s ! a + real_of_int reward],
      m_arm_visits_kl := (m_arm_visits_kl s)[a := m_arm_visits_kl s ! a + 1],
      m_visits_kl := m_visits_kl s + 1\<rparr>)"
    using visits_match_update [OF vm a(2,3)] k len by (simp add: klucb_inv_def)
  ultimately show ?thesis using a by blast
qed

lemma sw_step:
  assumes "sw_inv K seen s" "distinct seen" "set seen \<subseteq> {0 ..< K}" "length seen < K"
  shows "\<exists>a s'. SlidingUCB_getAction s draw = Inr a \<and> a < K \<and> a \<notin> set seen
    \<and> SlidingUCB_update s a reward = Inr s' \<and> (length seen + 1 < K \<longrightarrow> sw_inv K (seen @ [a]) s')"
proof -
  from assms(1) have vm: "visits_match K seen (m_arm_visits_sw s)"
    and k: "m_arms_sw s = K" and len: "length (m_arm_cumm_reward_sw s) = K"
    and w: "K \<le> m_window_sw s + 1" and plays: "m_plays_sw s = seen"
    by (simp_all add: sw_inv_def)
  from unvisited_pick [OF vm assms(2-4), of draw "SlidingUCB_ucb s"]
  obtain a where a: "SlidingUCB_getAction s draw = Inr a" "a < K" "a \<notin> set seen"
    by (auto simp: SlidingUCB_getAction_def SlidingUCB_unvisitedArms_def k)
  have lv: "length (m_arm_visits_sw s) = K" using vm by (simp add: visits_match_def)
  have front: "hd (seen @ [a]) < K"
    using assms(3) a(2) by (cases seen) auto
  have ok: "\<exists>s'. SlidingUCB_update s a reward = Inr s'"
    using a(2) len lv front by (simp add: SlidingUCB_update_def Let_def plays)
  have keep: "SlidingUCB_update s a reward =
      Inr (s\<lparr>m_plays_sw := seen @ [a], m_rewards_sw := m_rewards_sw s @ [real_of_int reward],
             m_arm_cumm_reward_sw := (m_arm_cumm_reward_sw s)[a := m_arm_cumm_reward_sw s ! a + real_of_int reward],
             m_arm_visits_sw := (m_arm_visits_sw s)[a := m_arm_visits_sw s ! a + 1]\<rparr>)"
    if "length seen + 1 < K"
    using that a(2) len lv w by (simp add: SlidingUCB_update_def Let_def plays)
  have "sw_inv K (seen @ [a])
      (s\<lparr>m_plays_sw := seen @ [a], m_rewards_sw := m_rewards_sw s @ [real_of_int reward],
             m_arm_cumm_reward_sw := (m_arm_cumm_reward_sw s)[a := m_arm_cumm_reward_sw s ! a + real_of_int reward],
             m_arm_visits_sw := (m_arm_visits_sw s)[a := m_arm_visits_sw s ! a + 1]\<rparr>)"
    using visits_match_update [OF vm a(2,3)] k len w by (simp add: sw_inv_def)
  with keep ok a show ?thesis by auto
qed

text \<open>
  C5, amended. Under the interaction loop, with any draws and any rewards, the first \<open>K\<close>
  calls of \<open>getAction\<close> return \<open>K\<close> distinct arms, that is every arm of \<open>[0, K)\<close>, for UCB1,
  for KL-UCB, and for sliding-window UCB when the window holds \<open>K - 1\<close> plays at least
  (\<open>K \<le> W + 1\<close>).
\<close>

theorem ucb_family_first_K_calls:
  assumes "length rounds = K"
  shows "(\<exists>acts s. play UCB_getAction UCB_update (UCBStrategy_init K) rounds = Inr (acts, s)
            \<and> length acts = K \<and> set acts = {0 ..< K})
    \<and> (\<exists>acts s. play KLUCB_getAction KLUCB_update (KLUCBStrategy_init K) rounds = Inr (acts, s)
            \<and> length acts = K \<and> set acts = {0 ..< K})
    \<and> (K \<le> W + 1 \<longrightarrow>
         (\<exists>acts s. play SlidingUCB_getAction SlidingUCB_update (SlidingUCBStrategy_init K W) rounds
              = Inr (acts, s)
            \<and> length acts = K \<and> set acts = {0 ..< K}))"
proof -
  have a: "\<exists>acts s'. play UCB_getAction UCB_update (UCBStrategy_init K) rounds = Inr (acts, s')
    \<and> length acts = length rounds \<and> distinct ([] @ acts) \<and> set acts \<subseteq> {0 ..< K}"
  proof (rule play_generic [where inv = "ucb_inv K"])
    show "ucb_inv K [] (UCBStrategy_init K)"
      by (simp add: ucb_inv_def UCBStrategy_init_def visits_match_init)
  qed (use assms ucb_step in auto)
  have b: "\<exists>acts s'. play KLUCB_getAction KLUCB_update (KLUCBStrategy_init K) rounds = Inr (acts, s')
    \<and> length acts = length rounds \<and> distinct ([] @ acts) \<and> set acts \<subseteq> {0 ..< K}"
  proof (rule play_generic [where inv = "klucb_inv K"])
    show "klucb_inv K [] (KLUCBStrategy_init K)"
      by (simp add: klucb_inv_def KLUCBStrategy_init_def visits_match_init)
  qed (use assms klucb_step in auto)
  have c: "\<exists>acts s'. play SlidingUCB_getAction SlidingUCB_update (SlidingUCBStrategy_init K W) rounds
      = Inr (acts, s')
    \<and> length acts = length rounds \<and> distinct ([] @ acts) \<and> set acts \<subseteq> {0 ..< K}"
    if "K \<le> W + 1"
  proof (rule play_generic [where inv = "sw_inv K"])
    show "sw_inv K [] (SlidingUCBStrategy_init K W)"
      using that by (simp add: sw_inv_def SlidingUCBStrategy_init_def visits_match_init)
  qed (use assms sw_step in auto)
  show ?thesis
    using a b c assms distinct_all_arms [of _ K] by (auto 0 3)
qed

theorem ucb_family_first_K_calls_witness:
  "(\<exists>acts s. play UCB_getAction UCB_update (UCBStrategy_init 2) [(0, 1), (5, 0)] = Inr (acts, s)
       \<and> set acts = {0 ..< 2})
   \<and> (\<exists>acts s. play KLUCB_getAction KLUCB_update (KLUCBStrategy_init 2) [(0, 1), (5, 0)] = Inr (acts, s)
       \<and> set acts = {0 ..< 2})
   \<and> (\<exists>acts s. play SlidingUCB_getAction SlidingUCB_update (SlidingUCBStrategy_init 2 1) [(0, 1), (5, 0)]
          = Inr (acts, s)
       \<and> set acts = {0 ..< 2})"
proof -
  have "length [(0::nat, 1::int), (5, 0)] = 2" by simp
  from ucb_family_first_K_calls [OF this, of 1] show ?thesis
    by (simp del: play.simps) blast
qed

text \<open>
  With a shorter window the claim fails: three arms and a window of one play. The second
  update evicts the first play, arm 0 is unvisited again, and the third call may return
  it: arm 2 is not among the first three arms.
\<close>

lemma unvisitedArms_of_3:
  "unvisitedArms_of 3 [a, b, c] =
     Inr ((if a = 0 then [0] else []) @ (if b = 0 then [1] else []) @ (if c = 0 then [2] else []))"
  by (simp add: unvisitedArms_of_char upt_rec [of 0] upt_rec [of 1] upt_rec [of 2] numeral_3_eq_3)

lemma sw_getAction_3:
  "SlidingUCB_getAction
     \<lparr>m_arms_sw = 3, m_window_sw = w, m_plays_sw = ps, m_rewards_sw = rs,
      m_arm_cumm_reward_sw = cs, m_arm_visits_sw = [a, b, c]\<rparr> draw =
   (let unv = (if a = 0 then [0] else []) @ (if b = 0 then [1] else []) @ (if c = 0 then [2] else [])
    in choose_action unv draw
         (SlidingUCB_ucb \<lparr>m_arms_sw = 3, m_window_sw = w, m_plays_sw = ps, m_rewards_sw = rs,
            m_arm_cumm_reward_sw = cs, m_arm_visits_sw = [a, b, c]\<rparr>) 3)"
  by (simp add: SlidingUCB_getAction_def SlidingUCB_unvisitedArms_def unvisitedArms_of_3)

theorem sliding_ucb_small_window_counterexample:
  "play SlidingUCB_getAction SlidingUCB_update (SlidingUCBStrategy_init 3 1)
     [(0, 0), (0, 0), (0, 0)] =
   Inr ([0, 1, 0],
        \<lparr>m_arms_sw = 3, m_window_sw = 1, m_plays_sw = [0], m_rewards_sw = [0],
         m_arm_cumm_reward_sw = [0, 0, 0], m_arm_visits_sw = [1, 0, 0]\<rparr>)
   \<and> 2 \<notin> set [0, 1, 0 :: nat]"
proof -
  let ?s0 = "\<lparr>m_arms_sw = 3, m_window_sw = 1, m_plays_sw = [], m_rewards_sw = [],
         m_arm_cumm_reward_sw = [0, 0, 0], m_arm_visits_sw = [0, 0, 0]\<rparr>"
  let ?s1 = "\<lparr>m_arms_sw = 3, m_window_sw = 1, m_plays_sw = [0], m_rewards_sw = [0],
         m_arm_cumm_reward_sw = [0, 0, 0], m_arm_visits_sw = [1, 0, 0]\<rparr>"
  let ?s2 = "\<lparr>m_arms_sw = 3, m_window_sw = 1, m_plays_sw = [1], m_rewards_sw = [0],
         m_arm_cumm_reward_sw = [0, 0, 0], m_arm_visits_sw = [0, 1, 0]\<rparr>"
  have i: "SlidingUCBStrategy_init 3 1 = ?s0"
    by (simp add: SlidingUCBStrategy_init_def numeral_3_eq_3)
  have g0: "SlidingUCB_getAction ?s0 0 = Inr 0"
    by (simp add: sw_getAction_3 choose_action_def)
  have u0: "SlidingUCB_update ?s0 0 0 = Inr ?s1"
    by (simp add: SlidingUCB_update_def Let_def)
  have g1: "SlidingUCB_getAction ?s1 0 = Inr 1"
    by (simp add: sw_getAction_3 choose_action_def)
  have u1: "SlidingUCB_update ?s1 1 0 = Inr ?s2"
    by (simp add: SlidingUCB_update_def Let_def)
  have g2: "SlidingUCB_getAction ?s2 0 = Inr 0"
    by (simp add: sw_getAction_3 choose_action_def)
  have u2: "SlidingUCB_update ?s2 0 0 = Inr ?s1"
    by (simp add: SlidingUCB_update_def Let_def)
  have "play SlidingUCB_getAction SlidingUCB_update (SlidingUCBStrategy_init 3 1)
     [(0, 0), (0, 0), (0, 0)] = Inr ([0, 1, 0], ?s1)"
    by (simp only: i play.simps g0 u0 g1 u1 g2 u2 bindE_Inr prod.case)
  moreover have "2 \<notin> set [0, 1, 0 :: nat]" by simp
  ultimately show ?thesis by (rule conjI)
qed

section \<open>Proofs: MALG always has an active instance\<close>

lemma ucb_wf_init [simp]: "ucb_wf K (UCBStrategy_init K)"
  by (simp add: ucb_wf_def UCBStrategy_init_def)

lemma ucb_wf_reset [simp]: "ucb_wf K a \<Longrightarrow> ucb_wf K (UCB_reset a)"
  by (simp add: ucb_wf_def UCB_reset_def)

lemma argmax_score_total:
  assumes "\<And>i. i < K \<Longrightarrow> \<exists>sc. score i = Inr sc" "1 \<le> K"
  shows "\<exists>a. argmax_score score K = Inr a \<and> a < K"
proof -
  let ?f = "\<lambda>i s. case s of (best, best_idx) \<Rightarrow>
                     bindE (score i) (\<lambda>sc.
                       Inr (if dgt sc best then (sc, i) else (best, best_idx)))"
  have "\<exists>b idx. foldE ?f [0 ..< n] (NInf, 0) = Inr (b, idx) \<and> (idx = 0 \<or> idx < n)" if "n \<le> K" for n
    using that
  proof (induction n)
    case 0
    then show ?case by simp
  next
    case (Suc n)
    then obtain b idx where run: "foldE ?f [0 ..< n] (NInf, 0) = Inr (b, idx)"
      and idx: "idx = 0 \<or> idx < n"
      by auto
    from assms(1) [of n] Suc.prems obtain sc where "score n = Inr sc" by auto
    then show ?case using run idx by (auto simp: foldE_append)
  qed
  from this [of K] obtain b idx where "foldE ?f [0 ..< K] (NInf, 0) = Inr (b, idx)"
    "idx = 0 \<or> idx < K"
    by auto
  then show ?thesis using assms(2) by (auto simp: argmax_score_def)
qed

lemma UCB_ucb_total:
  assumes "ucb_wf K a" "i < K"
  shows "\<exists>sc. UCB_ucb a i = Inr sc"
  using assms by (simp add: UCB_ucb_def ucb_wf_def Let_def)

lemma UCB_getAction_total:
  assumes "ucb_wf K a" "1 \<le> K"
  shows "\<exists>arm. UCB_getAction a draw = Inr arm \<and> arm < K"
proof -
  let ?unv = "filter (\<lambda>arm. m_arm_visits_ucb a ! arm = 0) [0 ..< K]"
  have unv: "UCB_unvisitedArms a = Inr ?unv"
    using assms(1) by (simp add: UCB_unvisitedArms_def ucb_wf_def unvisitedArms_of_char)
  show ?thesis
  proof (cases "?unv = []")
    case True
    from argmax_score_total [of K "UCB_ucb a", OF UCB_ucb_total [OF assms(1)] assms(2)]
    show ?thesis using unv True assms(1) by (simp add: UCB_getAction_def choose_action_def ucb_wf_def)
  next
    case False
    from choose_unvisited [OF False, of draw "UCB_ucb a" K]
    obtain arm where "choose_action ?unv draw (UCB_ucb a) K = Inr arm" "arm \<in> set ?unv"
      by blast
    then show ?thesis using unv assms(1) by (auto simp: UCB_getAction_def ucb_wf_def)
  qed
qed

lemma UCB_update_total:
  assumes "ucb_wf K a" "arm < K"
  shows "\<exists>a'. UCB_update a arm reward = Inr a' \<and> ucb_wf K a'"
  using assms by (simp add: UCB_update_def ucb_wf_def)

lemma rho_pos:
  assumes "1 \<le> arms" "0 < t"
  shows "0 < rho arms t"
proof -
  have "0 < real arms / t" using assms by simp
  moreover have "0 \<le> sqrt (real arms / t)" using assms by simp
  ultimately show ?thesis by (simp add: rho_def Let_def add_nonneg_pos)
qed

lemma insts_wf_update:
  assumes "insts_wf K insts" "ucb_wf K (inst_alg i)"
  shows "insts_wf K (insts[m := Some i])"
  using assms by (auto simp: insts_wf_def dest!: set_update_subset_insert [THEN subsetD])

lemma schedule_step_ok:
  assumes "m_n st = D" "D \<le> 30" "length insts = D + 1" "m_arms_malg st = K" "insts_wf K insts"
  shows "\<exists>insts'. schedule_step st us off insts = Inr insts' \<and> length insts' = D + 1
    \<and> insts_wf K insts' \<and> (\<forall>j. j \<noteq> D - off \<longrightarrow> insts' ! j = insts ! j)"
proof -
  have m: "D - off < length insts" "\<not> 30 < D - off" using assms by simp_all
  show ?thesis
  proof (cases "insts ! (D - off)")
    case None
    then show ?thesis
      using assms m insts_wf_update [OF assms(5), of "\<lparr>inst_alg = UCBStrategy_init K,
          inst_s = m_tau st, inst_e = m_tau st + 2 ^ (D - off) - 1\<rparr>" "D - off"]
      by (simp add: schedule_step_def Let_def)
  next
    case (Some i)
    then have "Some i \<in> set insts" using m(1) by (metis nth_mem)
    then have "ucb_wf K (inst_alg i)" using assms(5) by (simp add: insts_wf_def)
    then show ?thesis
      using assms m Some insts_wf_update [OF assms(5), of "i\<lparr>inst_s := m_tau st,
          inst_e := m_tau st + 2 ^ (D - off) - 1, inst_alg := UCB_reset (inst_alg i)\<rparr>" "D - off"]
      by (simp add: schedule_step_def Let_def)
  qed
qed

lemma schedule_rest_ok:
  assumes "m_n st = D" "D \<le> 30" "length insts = D + 1" "m_arms_malg st = K" "insts_wf K insts"
    and "\<forall>off \<in> set offs. 1 \<le> off \<and> off \<le> D"
  shows "\<exists>insts'. foldE (schedule_step st us) offs insts = Inr insts' \<and> length insts' = D + 1
    \<and> insts_wf K insts' \<and> insts' ! D = insts ! D"
  using assms(3,5,6)
proof (induction offs arbitrary: insts)
  case Nil
  then show ?case by simp
next
  case (Cons off offs)
  from schedule_step_ok [OF assms(1,2) Cons.prems(1) assms(4) Cons.prems(2), of us off]
  obtain insts1 where s1: "schedule_step st us off insts = Inr insts1" "length insts1 = D + 1"
    "insts_wf K insts1" "\<forall>j. j \<noteq> D - off \<longrightarrow> insts1 ! j = insts ! j"
    by blast
  have "D - off \<noteq> D" using Cons.prems(3) by auto
  then have keep: "insts1 ! D = insts ! D" using s1(4) by simp
  from Cons.IH [OF s1(2,3)] Cons.prems(3)
  obtain insts' where "foldE (schedule_step st us) offs insts1 = Inr insts'"
    "length insts' = D + 1" "insts_wf K insts'" "insts' ! D = insts1 ! D"
    by auto
  then show ?case using s1(1) keep by simp
qed

lemma schedule_top:
  assumes "m_n st = D" "D \<le> 30" "length insts = D + 1" "m_arms_malg st = K" "insts_wf K insts"
    and K: "1 \<le> K" and u: "0 \<le> us D" "us D < 1" and tau: "1 \<le> m_tau st"
    and top: "(m_tau st - 1) mod 2 ^ D \<noteq> 0 \<longrightarrow> top_ok D (m_tau st) insts"
  shows "\<exists>insts'. schedule_step st us 0 insts = Inr insts' \<and> length insts' = D + 1
    \<and> insts_wf K insts' \<and> top_ok D (m_tau st) insts'"
proof (cases "(m_tau st - 1) mod 2 ^ D = 0")
  case False
  then have same: "schedule_step st us 0 insts = Inr insts"
    using assms(1,2) by (simp add: schedule_step_def Let_def)
  then show ?thesis using assms(3,5) top False by simp
next
  case True
  have r: "0 < rho K (2 ^ D)" using K by (intro rho_pos) simp_all
  then have thr: "ddiv (Fin (rho K (2 ^ D))) (Fin (rho K (2 ^ D))) = Fin 1" by simp
  have s: "(m_tau st - 1) div 2 ^ D * 2 ^ D + 1 = m_tau st"
    using True tau by (simp add: mod_eq_0_iff_dvd)
  from schedule_step_ok [OF assms(1-5), of us 0]
  obtain insts' where s1: "schedule_step st us 0 insts = Inr insts'" "length insts' = D + 1"
    "insts_wf K insts'"
    by blast
  have "\<exists>inst. insts' ! D = Some inst \<and> inst_s inst = m_tau st
      \<and> inst_e inst = m_tau st + 2 ^ D - 1"
    using s1(1) True assms(1-4) u(2) thr
    by (cases "insts ! D") (auto simp: schedule_step_def Let_def)
  then obtain inst where "insts' ! D = Some inst" "inst_s inst = (m_tau st - 1) div 2 ^ D * 2 ^ D + 1"
    "inst_e inst = inst_s inst + 2 ^ D - 1"
    unfolding s by auto
  then have "top_ok D (m_tau st) insts'" unfolding top_ok_def by blast
  then show ?thesis using s1 by blast
qed

lemma schedule_loop_ok:
  assumes inv: "malg_inv K D st" and "D \<le> 30" and K: "1 \<le> K" and u: "0 \<le> us D" "us D < 1"
  shows "\<exists>insts'. foldE (schedule_step st us) [0 ..< m_n st + 1] (m_instances st) = Inr insts'
    \<and> length insts' = D + 1 \<and> insts_wf K insts' \<and> top_ok D (m_tau st) insts'"
proof -
  from inv have p: "m_n st = D" "length (m_instances st) = D + 1" "m_arms_malg st = K"
    "insts_wf K (m_instances st)" "1 \<le> m_tau st"
    "(m_tau st - 1) mod 2 ^ D \<noteq> 0 \<longrightarrow> top_ok D (m_tau st) (m_instances st)"
    by (simp_all add: malg_inv_def)
  from schedule_top [where us = us, OF p(1) assms(2) p(2,3,4) K u p(5,6)]
  obtain insts1 where s1: "schedule_step st us 0 (m_instances st) = Inr insts1"
    "length insts1 = D + 1" "insts_wf K insts1" "top_ok D (m_tau st) insts1"
    by blast
  have offs: "\<forall>off \<in> set [1 ..< D + 1]. 1 \<le> off \<and> off \<le> D" by auto
  from schedule_rest_ok [OF p(1) assms(2) s1(2) p(3) s1(3) offs, of us]
  obtain insts' where s2: "foldE (schedule_step st us) [1 ..< D + 1] insts1 = Inr insts'"
    "length insts' = D + 1" "insts_wf K insts'" "insts' ! D = insts1 ! D"
    by blast
  have "[0 ..< m_n st + 1] = 0 # [1 ..< D + 1]" by (simp add: p(1) upt_rec)
  then have "foldE (schedule_step st us) [0 ..< m_n st + 1] (m_instances st) = Inr insts'"
    using s1(1) s2(1) by simp
  moreover have "top_ok D (m_tau st) insts'" using s1(4) s2(4) by (simp add: top_ok_def)
  ultimately show ?thesis using s2 by blast
qed

lemma active_loop:
  assumes "n \<le> length (m_instances st)"
  shows "\<exists>best idx.
      foldE (\<lambda>i b. case b of (best, best_idx) \<Rightarrow>
                     bindE (nth_chk (m_instances st) i) (\<lambda>e.
                       case e of
                         None \<Rightarrow> Inr (best, best_idx)
                       | Some inst \<Rightarrow>
                           if m_tau st \<ge> inst_s inst \<and> m_tau st \<le> inst_e inst then
                             (if inst_length inst < best then Inr (inst_length inst, i)
                              else Inr (best, best_idx))
                           else Inr (best, best_idx)))
              [0 ..< n] (size_max, size_max) = Inr (best, idx)
    \<and> (\<forall>i < n. \<forall>inst. m_instances st ! i = Some inst
          \<and> inst_s inst \<le> m_tau st \<and> m_tau st \<le> inst_e inst \<longrightarrow> best \<le> inst_length inst)
    \<and> (best = size_max
        \<or> (idx < n \<and> (\<exists>inst. m_instances st ! idx = Some inst
              \<and> inst_s inst \<le> m_tau st \<and> m_tau st \<le> inst_e inst \<and> inst_length inst = best)))"
  (is "\<exists>best idx. foldE ?f [0 ..< n] _ = _ \<and> ?A n best \<and> ?B n best idx")
  using assms
proof (induction n)
  case 0
  then show ?case by simp
next
  case (Suc n)
  then obtain best idx where run: "foldE ?f [0 ..< n] (size_max, size_max) = Inr (best, idx)"
    and A: "?A n best" and B: "?B n best idx"
    by auto
  have n: "n < length (m_instances st)" using Suc.prems by simp
  have step: "foldE ?f [0 ..< Suc n] (size_max, size_max) = ?f n (best, idx)"
    using run by (simp add: foldE_snoc)
  show ?case
  proof (cases "m_instances st ! n")
    case None
    then have "?f n (best, idx) = Inr (best, idx)" using n by simp
    moreover have "?A (Suc n) best" using A None by (auto simp: less_Suc_eq)
    moreover have "?B (Suc n) best idx" using B by auto
    ultimately show ?thesis using step by auto
  next
    case (Some inst)
    show ?thesis
    proof (cases "inst_s inst \<le> m_tau st \<and> m_tau st \<le> inst_e inst \<and> inst_length inst < best")
      case True
      then have "?f n (best, idx) = Inr (inst_length inst, n)" using n Some by simp
      moreover have "?A (Suc n) (inst_length inst)"
        using A True Some by (auto simp: less_Suc_eq)
      moreover have "?B (Suc n) (inst_length inst) n" using True Some by auto
      ultimately show ?thesis using step by auto
    next
      case False
      then have "?f n (best, idx) = Inr (best, idx)" using n Some by auto
      moreover have "?A (Suc n) best" using A False Some by (auto simp: less_Suc_eq)
      moreover have "?B (Suc n) best idx" using B by auto
      ultimately show ?thesis using step by auto
    qed
  qed
qed

lemma activeInstance_ok:
  assumes "i < length (m_instances st)" "m_instances st ! i = Some inst"
    "inst_s inst \<le> m_tau st" "m_tau st \<le> inst_e inst" "inst_length inst < size_max"
  shows "\<exists>idx inst'. MalgUCB_activeInstance st = Inr idx \<and> idx < length (m_instances st)
    \<and> m_instances st ! idx = Some inst'
    \<and> inst_s inst' \<le> m_tau st \<and> m_tau st \<le> inst_e inst'
    \<and> (\<forall>j < length (m_instances st). \<forall>other. m_instances st ! j = Some other
          \<and> inst_s other \<le> m_tau st \<and> m_tau st \<le> inst_e other
          \<longrightarrow> inst_length inst' \<le> inst_length other)"
proof -
  from active_loop [of "length (m_instances st)" st]
  obtain best idx where run: "foldE (\<lambda>i b. case b of (best, best_idx) \<Rightarrow>
                     bindE (nth_chk (m_instances st) i) (\<lambda>e.
                       case e of
                         None \<Rightarrow> Inr (best, best_idx)
                       | Some inst \<Rightarrow>
                           if m_tau st \<ge> inst_s inst \<and> m_tau st \<le> inst_e inst then
                             (if inst_length inst < best then Inr (inst_length inst, i)
                              else Inr (best, best_idx))
                           else Inr (best, best_idx)))
              [0 ..< length (m_instances st)] (size_max, size_max) = Inr (best, idx)"
    and A: "\<forall>i < length (m_instances st). \<forall>inst. m_instances st ! i = Some inst
          \<and> inst_s inst \<le> m_tau st \<and> m_tau st \<le> inst_e inst \<longrightarrow> best \<le> inst_length inst"
    and B: "best = size_max
        \<or> (idx < length (m_instances st) \<and> (\<exists>inst. m_instances st ! idx = Some inst
              \<and> inst_s inst \<le> m_tau st \<and> m_tau st \<le> inst_e inst \<and> inst_length inst = best))"
    by auto
  from A assms have "best \<le> inst_length inst" by blast
  then have ne: "best \<noteq> size_max" using assms(5) by simp
  with B obtain inst' where i': "idx < length (m_instances st)" "m_instances st ! idx = Some inst'"
    "inst_s inst' \<le> m_tau st" "m_tau st \<le> inst_e inst'" "inst_length inst' = best"
    by blast
  have "MalgUCB_activeInstance st = Inr idx"
    using run ne by (simp add: MalgUCB_activeInstance_def)
  then show ?thesis using i' A by blast
qed

lemma div_pred_same:
  fixes t n :: nat
  assumes "t mod n \<noteq> 0" "0 < n"
  shows "(t - 1) div n = t div n"
proof (rule div_nat_eqI)
  have t: "t = n * (t div n) + t mod n" by simp
  have r: "1 \<le> t mod n" using assms by simp
  have "n * (t div n) + 1 \<le> t" using t r by linarith
  then show "n * (t div n) \<le> t - 1" by linarith
  have "t mod n < n" using assms(2) by simp
  then have "t < n * (t div n) + n" using t by linarith
  then show "t - 1 < n * Suc (t div n)" using r by simp
qed

lemma window_bounds:
  fixes t n :: nat
  assumes "1 \<le> t" "0 < n"
  shows "(t - 1) div n * n + 1 \<le> t" "t \<le> (t - 1) div n * n + 1 + n - 1"
proof -
  have a: "(t - 1) div n * n \<le> t - 1" by simp
  then show "(t - 1) div n * n + 1 \<le> t" using assms(1) by linarith
  have "t - 1 = (t - 1) div n * n + (t - 1) mod n" by simp
  moreover have "(t - 1) mod n < n" using assms(2) by simp
  ultimately have "t - 1 < (t - 1) div n * n + n" by linarith
  then show "t \<le> (t - 1) div n * n + 1 + n - 1" using assms(1) by linarith
qed

lemma malg_round:
  assumes inv: "malg_inv K D st" and D: "D \<le> 30" and K: "1 \<le> K"
    and u: "\<forall>m. 0 \<le> us m \<and> us m < 1"
  shows "\<exists>a st1 st2 idx. MalgUCB_getAction st us draw = Inr (a, st1) \<and> a < K
    \<and> covered st1 \<and> MalgUCB_activeInstance st1 = Inr idx
    \<and> MalgUCB_update st1 a reward = Inr st2 \<and> malg_inv K D st2"
proof -
  from inv have p: "m_n st = D" "length (m_instances st) = D + 1" "m_arms_malg st = K" "1 \<le> m_tau st"
    by (simp_all add: malg_inv_def)
  from u have uD: "0 \<le> us D" "us D < 1" by simp_all
  from schedule_loop_ok [where us = us, OF inv D K uD]
  obtain insts where sched: "foldE (schedule_step st us) [0 ..< m_n st + 1] (m_instances st) = Inr insts"
    and len: "length insts = D + 1" and wf: "insts_wf K insts" and top: "top_ok D (m_tau st) insts"
    by blast
  define st1 where "st1 = st\<lparr>m_instances := insts\<rparr>"
  have st1: "m_instances st1 = insts" "m_tau st1 = m_tau st" "m_arms_malg st1 = K" "m_n st1 = D"
    by (simp_all add: st1_def p)
  from top obtain tp where tp: "insts ! D = Some tp"
    "inst_s tp = (m_tau st - 1) div 2 ^ D * 2 ^ D + 1" "inst_e tp = inst_s tp + 2 ^ D - 1"
    by (auto simp: top_ok_def)
  have cov: "inst_s tp \<le> m_tau st" "m_tau st \<le> inst_e tp"
    using window_bounds [OF p(4), of "2 ^ D"] tp(2,3) by simp_all
  have "inst_length tp = 2 ^ D" using tp(3) by (simp add: inst_length_def)
  moreover have "(2::nat) ^ D \<le> 2 ^ 30" using D by (intro power_increasing) simp_all
  ultimately have small: "inst_length tp < size_max" by (simp add: size_max_def)
  from activeInstance_ok [of D st1 tp] tp(1) cov small len
  obtain idx act where act: "MalgUCB_activeInstance st1 = Inr idx" "idx < length insts"
    "insts ! idx = Some act" "inst_s act \<le> m_tau st" "m_tau st \<le> inst_e act"
    by (auto simp: st1)
  have covered: "covered st1"
    using act by (auto simp: covered_def st1)
  have "Some act \<in> set insts" using act(2,3) by (metis nth_mem)
  then have awf: "ucb_wf K (inst_alg act)" using wf by (simp add: insts_wf_def)
  from UCB_getAction_total [OF awf K, of draw]
  obtain a where a: "UCB_getAction (inst_alg act) draw = Inr a" "a < K" by blast
  have get: "MalgUCB_getAction st us draw = Inr (a, st1)"
    using sched act a by (simp add: MalgUCB_getAction_def Let_def st1_def [symmetric] st1)
  from UCB_update_total [OF awf a(2), of reward]
  obtain alg where alg: "UCB_update (inst_alg act) a reward = Inr alg" "ucb_wf K alg" by blast
  define st2 where "st2 = st1\<lparr>m_instances := insts[idx := Some (act\<lparr>inst_alg := alg\<rparr>)],
                    m_tau := m_tau st + 1\<rparr>"
  have upd: "MalgUCB_update st1 a reward = Inr st2"
    using act alg by (simp add: MalgUCB_update_def st1 st2_def)
  have wf2: "insts_wf K (insts[idx := Some (act\<lparr>inst_alg := alg\<rparr>)])"
    using alg(2) by (intro insts_wf_update [OF wf]) simp
  have top2: "top_ok D (m_tau st + 1) (insts[idx := Some (act\<lparr>inst_alg := alg\<rparr>)])"
    if "(m_tau st + 1 - 1) mod 2 ^ D \<noteq> 0"
  proof -
    from that have "m_tau st mod 2 ^ D \<noteq> 0" by simp
    from div_pred_same [OF this] have q: "(m_tau st + 1 - 1) div 2 ^ D = (m_tau st - 1) div 2 ^ D"
      by simp
    show ?thesis
    proof (cases "idx = D")
      case True
      then have "act = tp" using act(3) tp(1) by simp
      then show ?thesis using tp True len unfolding top_ok_def q by simp
    next
      case False
      then show ?thesis using tp unfolding top_ok_def q by simp
    qed
  qed
  have "malg_inv K D st2"
    using wf2 top2 len by (simp add: malg_inv_def st2_def st1)
  with get a(2) covered act(1) upd show ?thesis by blast
qed

lemma malg_inv_init: "malg_inv K D (MalgUCB_init K D)"
  by (simp add: malg_inv_def MalgUCB_init_def insts_wf_def)

text \<open>
  C6. From \<open>m_tau = 1\<close>, under the alternating protocol with draws in \<open>[0, 1)\<close>, for at
  least one arm and a depth of 30 at most, every round returns, and in every state in
  which \<open>activeInstance\<close> is invoked an installed instance has a window \<open>[s, e]\<close> that
  contains \<open>m_tau\<close>: \<open>activeInstance\<close> returns an index and its assertion holds.
\<close>

theorem malg_active_instance_exists:
  assumes "1 \<le> K" and "D \<le> 30" and "unit_draws rounds"
  shows "\<exists>acts sts st. MalgUCB_run (MalgUCB_init K D) rounds = Inr (acts, sts, st)
    \<and> length sts = length rounds
    \<and> (\<forall>st1 \<in> set sts. covered st1 \<and> (\<exists>idx. MalgUCB_activeInstance st1 = Inr idx))"
proof -
  have "\<exists>acts sts st'. MalgUCB_run st rounds = Inr (acts, sts, st')
    \<and> length sts = length rounds
    \<and> (\<forall>st1 \<in> set sts. covered st1 \<and> (\<exists>idx. MalgUCB_activeInstance st1 = Inr idx))"
    if "malg_inv K D st" for st
    using that assms(3)
  proof (induction rounds arbitrary: st)
    case Nil
    then show ?case by simp
  next
    case (Cons x rounds)
    obtain us draw reward where x: "x = (us, draw, reward)" by (cases x)
    from Cons.prems(2) have u: "\<forall>m. 0 \<le> us m \<and> us m < 1" and rest: "unit_draws rounds"
      by (auto simp: unit_draws_def x)
    from malg_round [OF Cons.prems(1) assms(2,1) u, of draw reward]
    obtain a st1 st2 idx where r: "MalgUCB_getAction st us draw = Inr (a, st1)"
      "covered st1" "MalgUCB_activeInstance st1 = Inr idx"
      "MalgUCB_update st1 a reward = Inr st2" "malg_inv K D st2"
      by blast
    from Cons.IH [OF r(5) rest]
    obtain acts sts st' where "MalgUCB_run st2 rounds = Inr (acts, sts, st')"
      "length sts = length rounds"
      "\<forall>st1 \<in> set sts. covered st1 \<and> (\<exists>idx. MalgUCB_activeInstance st1 = Inr idx)"
      by blast
    then show ?case using r by (simp add: x)
  qed
  from this [OF malg_inv_init] show ?thesis .
qed

theorem malg_active_instance_exists_witness:
  "\<exists>acts sts st. MalgUCB_run (MalgUCB_init 2 2) [(\<lambda>m. 1 / 2, 0, 1), (\<lambda>m. 0, 1, 0)]
       = Inr (acts, sts, st)
     \<and> length sts = 2
     \<and> list_all (\<lambda>st1. covered st1 \<and> (\<exists>idx. MalgUCB_activeInstance st1 = Inr idx)) sts"
proof -
  have "unit_draws [(\<lambda>m. 1 / 2, 0, 1), (\<lambda>m. 0, 1, 0)]" by (simp add: unit_draws_def)
  from malg_active_instance_exists [of 2 2, OF _ _ this] show ?thesis
    by (simp add: list_all_iff numeral_2_eq_2 del: MalgUCB_run.simps)
qed

subsection \<open>The first call with two arms and depth 2\<close>

lemma upt_0_3: "[0 ..< 3] = [0, 1, 2]"
  by (simp add: numeral_3_eq_3 upt_rec)

lemma malg_first_schedule:
  assumes "us 2 < 1"
  shows "foldE (schedule_step (MalgUCB_init 2 2) us) [0 ..< 3] [None, None, None] =
    Inr [if us 0 < rho 2 4 / rho 2 1
           then Some \<lparr>inst_alg = UCBStrategy_init 2, inst_s = 1, inst_e = 1\<rparr> else None,
         if us 1 < rho 2 4 / rho 2 2
           then Some \<lparr>inst_alg = UCBStrategy_init 2, inst_s = 1, inst_e = 2\<rparr> else None,
         Some \<lparr>inst_alg = UCBStrategy_init 2, inst_s = 1, inst_e = 4\<rparr>]"
proof -
  have r4: "0 < rho 2 4" and r2: "0 < rho 2 2" and r1: "0 < rho 2 1"
    by (simp_all add: rho_pos)
  have s0: "schedule_step (MalgUCB_init 2 2) us 0 [None, None, None] =
      Inr [None, None, Some \<lparr>inst_alg = UCBStrategy_init 2, inst_s = 1, inst_e = 4\<rparr>]"
    using r4 assms by (simp add: schedule_step_def MalgUCB_init_def Let_def)
  have s1: "schedule_step (MalgUCB_init 2 2) us 1 [None, None, x] =
      Inr [None, if us 1 < rho 2 4 / rho 2 2
           then Some \<lparr>inst_alg = UCBStrategy_init 2, inst_s = 1, inst_e = 2\<rparr> else None, x]" for x
    using r4 r2 by (simp add: schedule_step_def MalgUCB_init_def Let_def)
  have s2: "schedule_step (MalgUCB_init 2 2) us 2 [None, y, x] =
      Inr [if us 0 < rho 2 4 / rho 2 1
           then Some \<lparr>inst_alg = UCBStrategy_init 2, inst_s = 1, inst_e = 1\<rparr> else None, y, x]" for x y
    using r4 r1 by (simp add: schedule_step_def MalgUCB_init_def Let_def)
  show ?thesis
    by (simp only: upt_0_3 foldE.simps s0 s1 s2 sum.case)
qed

lemma malg_first_active:
  "MalgUCB_activeInstance
     \<lparr>m_arms_malg = 2, m_n = 2, m_tau = 1,
      m_instances = [if c0 then Some \<lparr>inst_alg = a0, inst_s = 1, inst_e = 1\<rparr> else None,
                     if c1 then Some \<lparr>inst_alg = a1, inst_s = 1, inst_e = 2\<rparr> else None,
                     Some \<lparr>inst_alg = a2, inst_s = 1, inst_e = 4\<rparr>]\<rparr> =
   Inr (if c0 then 0 else if c1 then 1 else 2)"
  by (simp add: MalgUCB_activeInstance_def upt_0_3 inst_length_def size_max_def)

text \<open>
  C7, amended. With two arms and depth 2, the first \<open>getAction\<close> installs level 2 whatever
  the draw (its threshold is \<open>rho 4 / rho 4 = 1\<close>), with the window \<open>[1, 4]\<close> of length 4.
  The active instance is the installed one of the shortest window: level 0 when its draw
  is below \<open>rho 4 / rho 1\<close>, else level 1 when its draw is below \<open>rho 4 / rho 2\<close>, else
  level 2.
\<close>

theorem malg_first_call_depth_2:
  assumes "\<forall>m. 0 \<le> us m \<and> us m < 1"
  shows "rho 2 4 / rho 2 4 = 1
    \<and> (\<exists>a st1. MalgUCB_getAction (MalgUCB_init 2 2) us draw = Inr (a, st1)
        \<and> m_instances st1 ! 2 = Some \<lparr>inst_alg = UCBStrategy_init 2, inst_s = 1, inst_e = 4\<rparr>
        \<and> inst_length \<lparr>inst_alg = UCBStrategy_init 2, inst_s = 1, inst_e = 4\<rparr> = 4
        \<and> MalgUCB_activeInstance st1 =
            Inr (if us 0 < rho 2 4 / rho 2 1 then 0
                 else if us 1 < rho 2 4 / rho 2 2 then 1 else 2))"
proof -
  let ?insts = "[if us 0 < rho 2 4 / rho 2 1
           then Some \<lparr>inst_alg = UCBStrategy_init 2, inst_s = 1, inst_e = 1\<rparr> else None,
         if us 1 < rho 2 4 / rho 2 2
           then Some \<lparr>inst_alg = UCBStrategy_init 2, inst_s = 1, inst_e = 2\<rparr> else None,
         Some \<lparr>inst_alg = UCBStrategy_init 2, inst_s = 1, inst_e = 4\<rparr>]"
  let ?st1 = "\<lparr>m_arms_malg = 2, m_n = 2, m_tau = 1, m_instances = ?insts\<rparr>"
  have r: "rho 2 4 / rho 2 4 = 1" using rho_pos [of 2 4] by simp
  have init: "MalgUCB_init 2 2 = \<lparr>m_arms_malg = 2, m_n = 2, m_tau = 1, m_instances = [None, None, None]\<rparr>"
    by (simp add: MalgUCB_init_def numeral_3_eq_3)
  have sched: "foldE (schedule_step (MalgUCB_init 2 2) us) [0 ..< m_n (MalgUCB_init 2 2) + 1]
      (m_instances (MalgUCB_init 2 2)) = Inr ?insts"
    using malg_first_schedule [of us] assms by (simp add: init)
  have act: "MalgUCB_activeInstance ?st1 =
      Inr (if us 0 < rho 2 4 / rho 2 1 then 0 else if us 1 < rho 2 4 / rho 2 2 then 1 else 2)"
    by (rule malg_first_active)
  have "\<exists>a. UCB_getAction (UCBStrategy_init 2) draw = Inr a"
    using UCB_getAction_total [of 2 "UCBStrategy_init 2" draw] by auto
  then obtain a where a: "UCB_getAction (UCBStrategy_init 2) draw = Inr a" by blast
  have st1: "(MalgUCB_init 2 2)\<lparr>m_instances := ?insts\<rparr> = ?st1" by (simp add: init)
  have "MalgUCB_getAction (MalgUCB_init 2 2) us draw = Inr (a, ?st1)"
    unfolding MalgUCB_getAction_def sched bindE_Inr Let_def st1 act
    using a by simp
  moreover have "m_instances ?st1 ! 2 = Some \<lparr>inst_alg = UCBStrategy_init 2, inst_s = 1, inst_e = 4\<rparr>"
    by simp
  moreover have "inst_length \<lparr>inst_alg = UCBStrategy_init 2, inst_s = 1, inst_e = 4\<rparr> = 4"
    by (simp add: inst_length_def)
  ultimately show ?thesis using r act by blast
qed

theorem malg_first_call_depth_2_witness:
  "\<exists>a st1. MalgUCB_getAction (MalgUCB_init 2 2) (\<lambda>m. 1 / 2) 0 = Inr (a, st1)
      \<and> m_instances st1 ! 2 = Some \<lparr>inst_alg = UCBStrategy_init 2, inst_s = 1, inst_e = 4\<rparr>
      \<and> MalgUCB_activeInstance st1 =
            Inr (if 1 / 2 < rho 2 4 / rho 2 1 then 0
                 else if 1 / 2 < rho 2 4 / rho 2 2 then 1 else 2)"
proof -
  have "\<forall>m::nat. 0 \<le> (1 / 2 :: real) \<and> (1 / 2 :: real) < 1" by simp
  from malg_first_call_depth_2 [of "\<lambda>m. 1 / 2" 0, OF this] show ?thesis by blast
qed

text \<open>
  With all draws 0 the three levels install, and level 0, of window \<open>[1, 1]\<close>, is active:
  level 2 is neither of length 1 nor the active instance.
\<close>

theorem malg_level_2_not_active_counterexample:
  "MalgUCB_getAction (MalgUCB_init 2 2) (\<lambda>m. 0) 0 =
     Inr (0, \<lparr>m_arms_malg = 2, m_n = 2, m_tau = 1,
              m_instances = [Some \<lparr>inst_alg = UCBStrategy_init 2, inst_s = 1, inst_e = 1\<rparr>,
                             Some \<lparr>inst_alg = UCBStrategy_init 2, inst_s = 1, inst_e = 2\<rparr>,
                             Some \<lparr>inst_alg = UCBStrategy_init 2, inst_s = 1, inst_e = 4\<rparr>]\<rparr>)
   \<and> MalgUCB_activeInstance
        \<lparr>m_arms_malg = 2, m_n = 2, m_tau = 1,
         m_instances = [Some \<lparr>inst_alg = UCBStrategy_init 2, inst_s = 1, inst_e = 1\<rparr>,
                        Some \<lparr>inst_alg = UCBStrategy_init 2, inst_s = 1, inst_e = 2\<rparr>,
                        Some \<lparr>inst_alg = UCBStrategy_init 2, inst_s = 1, inst_e = 4\<rparr>]\<rparr> = Inr 0
   \<and> inst_length \<lparr>inst_alg = UCBStrategy_init 2, inst_s = 1, inst_e = 4\<rparr> = 4"
proof -
  have r4: "0 < rho 2 4" and r2: "0 < rho 2 2" and r1: "0 < rho 2 1"
    by (simp_all add: rho_pos)
  have init: "MalgUCB_init 2 2 = \<lparr>m_arms_malg = 2, m_n = 2, m_tau = 1, m_instances = [None, None, None]\<rparr>"
    by (simp add: MalgUCB_init_def numeral_3_eq_3)
  have sched: "foldE (schedule_step (MalgUCB_init 2 2) (\<lambda>m. 0)) [0 ..< m_n (MalgUCB_init 2 2) + 1]
      (m_instances (MalgUCB_init 2 2)) =
      Inr [Some \<lparr>inst_alg = UCBStrategy_init 2, inst_s = 1, inst_e = 1\<rparr>,
           Some \<lparr>inst_alg = UCBStrategy_init 2, inst_s = 1, inst_e = 2\<rparr>,
           Some \<lparr>inst_alg = UCBStrategy_init 2, inst_s = 1, inst_e = 4\<rparr>]"
    using malg_first_schedule [of "\<lambda>m. 0"] r4 r2 r1 by (simp add: init)
  have act: "MalgUCB_activeInstance
        \<lparr>m_arms_malg = 2, m_n = 2, m_tau = 1,
         m_instances = [Some \<lparr>inst_alg = UCBStrategy_init 2, inst_s = 1, inst_e = 1\<rparr>,
                        Some \<lparr>inst_alg = UCBStrategy_init 2, inst_s = 1, inst_e = 2\<rparr>,
                        Some \<lparr>inst_alg = UCBStrategy_init 2, inst_s = 1, inst_e = 4\<rparr>]\<rparr> = Inr 0"
    using malg_first_active [of True _ True] by simp
  have get: "UCB_getAction (UCBStrategy_init 2) 0 = Inr 0"
    by (simp add: UCB_getAction_def UCB_unvisitedArms_def UCBStrategy_init_def
        unvisitedArms_of_char choose_action_def numeral_2_eq_2 upt_rec)
  have "MalgUCB_getAction (MalgUCB_init 2 2) (\<lambda>m. 0) 0 =
     Inr (0, \<lparr>m_arms_malg = 2, m_n = 2, m_tau = 1,
              m_instances = [Some \<lparr>inst_alg = UCBStrategy_init 2, inst_s = 1, inst_e = 1\<rparr>,
                             Some \<lparr>inst_alg = UCBStrategy_init 2, inst_s = 1, inst_e = 2\<rparr>,
                             Some \<lparr>inst_alg = UCBStrategy_init 2, inst_s = 1, inst_e = 4\<rparr>]\<rparr>)"
    unfolding MalgUCB_getAction_def sched bindE_Inr Let_def
    using act get by (simp add: init)
  then show ?thesis using act by (simp add: inst_length_def)
qed

section \<open>Proofs: the environment\<close>

lemma max_element_from_first_max:
  assumes "li < length pre" "largest = pre ! li"
    and "\<forall>j < length pre. pre ! j \<le> pre ! li" "\<forall>j < li. pre ! j < pre ! li"
  shows "max_element_from largest li (length pre) xs < length (pre @ xs)
    \<and> (\<forall>j < length (pre @ xs).
          (pre @ xs) ! j \<le> (pre @ xs) ! max_element_from largest li (length pre) xs)
    \<and> (\<forall>j < max_element_from largest li (length pre) xs.
          (pre @ xs) ! j < (pre @ xs) ! max_element_from largest li (length pre) xs)"
  using assms
proof (induction xs arbitrary: pre largest li)
  case Nil
  then show ?case by simp
next
  case (Cons x xs)
  have app: "pre @ x # xs = (pre @ [x]) @ xs" by simp
  show ?case
  proof (cases "largest < x")
    case True
    have "max_element_from x (length pre) (length (pre @ [x])) xs < length ((pre @ [x]) @ xs)
      \<and> (\<forall>j < length ((pre @ [x]) @ xs).
            ((pre @ [x]) @ xs) ! j \<le> ((pre @ [x]) @ xs) ! max_element_from x (length pre) (length (pre @ [x])) xs)
      \<and> (\<forall>j < max_element_from x (length pre) (length (pre @ [x])) xs.
            ((pre @ [x]) @ xs) ! j < ((pre @ [x]) @ xs) ! max_element_from x (length pre) (length (pre @ [x])) xs)"
    proof (rule Cons.IH)
      show "\<forall>j < length (pre @ [x]). (pre @ [x]) ! j \<le> (pre @ [x]) ! length pre"
        using Cons.prems True by (auto simp: nth_append less_Suc_eq intro: less_imp_le order_trans)
      show "\<forall>j < length pre. (pre @ [x]) ! j < (pre @ [x]) ! length pre"
        using Cons.prems True by (auto simp: nth_append intro: le_less_trans)
    qed simp_all
    then show ?thesis using True unfolding app by simp
  next
    case False
    have "max_element_from largest li (length (pre @ [x])) xs < length ((pre @ [x]) @ xs)
      \<and> (\<forall>j < length ((pre @ [x]) @ xs).
            ((pre @ [x]) @ xs) ! j \<le> ((pre @ [x]) @ xs) ! max_element_from largest li (length (pre @ [x])) xs)
      \<and> (\<forall>j < max_element_from largest li (length (pre @ [x])) xs.
            ((pre @ [x]) @ xs) ! j < ((pre @ [x]) @ xs) ! max_element_from largest li (length (pre @ [x])) xs)"
    proof (rule Cons.IH)
      show "li < length (pre @ [x])" using Cons.prems by simp
      show "largest = (pre @ [x]) ! li" using Cons.prems by (simp add: nth_append)
      show "\<forall>j < length (pre @ [x]). (pre @ [x]) ! j \<le> (pre @ [x]) ! li"
        using Cons.prems False by (auto simp: nth_append less_Suc_eq)
      show "\<forall>j < li. (pre @ [x]) ! j < (pre @ [x]) ! li"
        using Cons.prems by (auto simp: nth_append)
    qed
    then show ?thesis using False unfolding app by simp
  qed
qed

lemma bestArm_first_max:
  assumes "m_thetas st \<noteq> []"
  shows "bestArm st < length (m_thetas st)
    \<and> (\<forall>j < length (m_thetas st). m_thetas st ! j \<le> m_thetas st ! bestArm st)
    \<and> (\<forall>j < bestArm st. m_thetas st ! j < m_thetas st ! bestArm st)"
proof -
  from assms obtain x xs where th: "m_thetas st = x # xs" by (cases "m_thetas st") auto
  have b: "bestArm st = max_element_from x 0 (length [x]) xs" by (simp add: bestArm_def th)
  from max_element_from_first_max [of 0 "[x]" x xs] show ?thesis
    unfolding b th by simp
qed

lemma bestArm_other_fields [simp]:
  "bestArm (st\<lparr>m_num_trials := n\<rparr>) = bestArm st"
  "bestArm (st\<lparr>m_cumm_reward := c\<rparr>) = bestArm st"
  "bestArm (st\<lparr>m_exp_cumm_reward := c\<rparr>) = bestArm st"
  by (simp_all add: bestArm_def)

lemma pull_step:
  assumes "arm_index < K" "length (m_thetas st) = K" "schedule_fits K (m_change_schedule st)"
  shows "\<exists>st1. pull st arm_index flip fresh = Inr (if flip then 1 else 0, st1)
    \<and> length (m_thetas st1) = K \<and> m_change_schedule st1 = m_change_schedule st
    \<and> m_num_trials st1 = m_num_trials st + 1
    \<and> m_exp_cumm_reward st1 = m_exp_cumm_reward st + m_thetas st ! bestArm st
    \<and> m_cumm_reward st1 = m_cumm_reward st + (if flip then 1 else 0)
    \<and> m_thetas st ! arm_index \<le> m_thetas st ! bestArm st"
proof -
  have ne: "m_thetas st \<noteq> []" using assms(1,2) by auto
  from bestArm_first_max [OF ne] assms(1,2)
  have b: "bestArm st < length (m_thetas st)" "m_thetas st ! arm_index \<le> m_thetas st ! bestArm st"
    by auto
  let ?t = "m_num_trials st + 1"
  let ?cs = "m_change_schedule st"
  from assms(3) have fit: "customArmInitialisation ?cs ?t = []
      \<or> length (customArmInitialisation ?cs ?t) = K"
    by (simp add: schedule_fits_def)
  show ?thesis
    using b assms(1,2) fit
    by (auto simp: pull_def Let_def env_reset_def)
qed

lemma pulls_dominated:
  assumes "length (m_thetas st) = K" "schedule_fits K (m_change_schedule st)" "valid_pulls K ps"
  shows "\<exists>expected st'. pulls st ps = Inr (expected, st')
    \<and> length (m_thetas st') = K
    \<and> m_num_trials st' = m_num_trials st + length ps
    \<and> expected \<le> m_exp_cumm_reward st' - m_exp_cumm_reward st
    \<and> m_cumm_reward st' - m_cumm_reward st = real (length (filter (\<lambda>(arm_index, flip, fresh). flip) ps))"
  using assms
proof (induction ps arbitrary: st)
  case Nil
  then show ?case by simp
next
  case (Cons p ps)
  obtain arm_index flip fresh where p: "p = (arm_index, flip, fresh)" by (cases p)
  from Cons.prems(3) have a: "arm_index < K" and rest: "valid_pulls K ps"
    by (auto simp: valid_pulls_def p)
  from pull_step [OF a Cons.prems(1,2), of flip fresh]
  obtain st1 where s1: "pull st arm_index flip fresh = Inr (if flip then 1 else 0, st1)"
    "length (m_thetas st1) = K" "m_change_schedule st1 = m_change_schedule st"
    "m_num_trials st1 = m_num_trials st + 1"
    "m_exp_cumm_reward st1 = m_exp_cumm_reward st + m_thetas st ! bestArm st"
    "m_cumm_reward st1 = m_cumm_reward st + (if flip then 1 else 0)"
    "m_thetas st ! arm_index \<le> m_thetas st ! bestArm st"
    by blast
  have fits1: "schedule_fits K (m_change_schedule st1)" using Cons.prems(2) s1(3) by simp
  from Cons.IH [OF s1(2) fits1 rest]
  obtain expected st' where r: "pulls st1 ps = Inr (expected, st')"
    "length (m_thetas st') = K"
    "m_num_trials st' = m_num_trials st1 + length ps"
    "expected \<le> m_exp_cumm_reward st' - m_exp_cumm_reward st1"
    "m_cumm_reward st' - m_cumm_reward st1 = real (length (filter (\<lambda>(arm_index, flip, fresh). flip) ps))"
    by blast
  have "pulls st (p # ps) = Inr (m_thetas st ! arm_index + expected, st')"
    using s1(1) r(1) by (simp add: p)
  moreover have "m_thetas st ! arm_index + expected \<le> m_exp_cumm_reward st' - m_exp_cumm_reward st"
    using s1(5,7) r(4) by linarith
  moreover have "m_cumm_reward st' - m_cumm_reward st =
      real (length (filter (\<lambda>(arm_index, flip, fresh). flip) (p # ps)))"
    using s1(6) r(5) by (cases flip) (simp_all add: p)
  ultimately show ?case using r(2,3) s1(4) by simp
qed

text \<open>
  C4, amended. For every sequence of valid pulls, with any coins and any resets, every
  pull returns, the best-hindsight expected return \<open>R*\<close> grows by at least the sum of the
  means of the pulled arms (the expectation of the realized reward, not the realized
  reward \<open>R\<close> itself, which is the number of successful coins), and \<open>bestArm\<close> is the first
  index of a largest entry of the current means.
\<close>

theorem best_hindsight_dominates_expected_reward:
  assumes "length (m_thetas st) = K" and "schedule_fits K (m_change_schedule st)"
    and "valid_pulls K ps"
  shows "\<exists>expected st'. pulls st ps = Inr (expected, st')
    \<and> expected \<le> bestHindsightExpectedReturn st' - bestHindsightExpectedReturn st
    \<and> cummulativeReward st' - cummulativeReward st =
        real (length (filter (\<lambda>(arm_index, flip, fresh). flip) ps))
    \<and> (0 < K \<longrightarrow> bestArm st' < K
          \<and> (\<forall>j < K. m_thetas st' ! j \<le> m_thetas st' ! bestArm st')
          \<and> (\<forall>j < bestArm st'. m_thetas st' ! j < m_thetas st' ! bestArm st'))"
proof -
  from pulls_dominated [OF assms]
  obtain expected st' where r: "pulls st ps = Inr (expected, st')"
    "length (m_thetas st') = K"
    "expected \<le> m_exp_cumm_reward st' - m_exp_cumm_reward st"
    "m_cumm_reward st' - m_cumm_reward st = real (length (filter (\<lambda>(arm_index, flip, fresh). flip) ps))"
    by blast
  have "bestArm st' < K
          \<and> (\<forall>j < K. m_thetas st' ! j \<le> m_thetas st' ! bestArm st')
          \<and> (\<forall>j < bestArm st'. m_thetas st' ! j < m_thetas st' ! bestArm st')" if "0 < K"
    using bestArm_first_max [of st'] r(2) that by auto
  then show ?thesis
    using r by (auto simp: bestHindsightExpectedReturn_def cummulativeReward_def)
qed

theorem best_hindsight_dominates_expected_reward_witness:
  "\<exists>expected st'.
      pulls (StochasticBanditProblem_init 2 NoChangeSchecule (\<lambda>i. if i = 0 then 1 / 2 else 3 / 10))
        [(0, True, \<lambda>i. 0), (1, False, \<lambda>i. 0)] = Inr (expected, st')
    \<and> expected \<le> bestHindsightExpectedReturn st'
    \<and> cummulativeReward st' = 1
    \<and> bestArm st' < 2"
proof -
  let ?st = "StochasticBanditProblem_init 2 NoChangeSchecule (\<lambda>i. if i = 0 then 1 / 2 else 3 / 10)"
  have a: "length (m_thetas ?st) = 2"
    and b: "schedule_fits 2 (m_change_schedule ?st)"
    and c: "valid_pulls 2 [(0, True, \<lambda>i. 0), (1, False, \<lambda>i. 0)]"
    and d: "bestHindsightExpectedReturn ?st = 0" "cummulativeReward ?st = 0"
    by (simp_all add: StochasticBanditProblem_init_def env_reset_def schedule_fits_def
        valid_pulls_def bestHindsightExpectedReturn_def cummulativeReward_def)
  from best_hindsight_dominates_expected_reward [OF a b c] show ?thesis
    by (simp add: d del: pulls.simps) blast
qed

text \<open>
  The realized reward can exceed \<open>R*\<close>: means \<open>1/2\<close> and \<open>3/10\<close>, arm 0 pulled, and the coin
  of bias \<open>1/2\<close> lands on 1. Then \<open>R = 1\<close> and \<open>R* = 1/2\<close>.
\<close>

theorem realized_reward_exceeds_best_hindsight_counterexample:
  "pull (StochasticBanditProblem_init 2 NoChangeSchecule (\<lambda>i. if i = 0 then 1 / 2 else 3 / 10))
      0 True (\<lambda>i. 0) =
    Inr (1, \<lparr>m_change_schedule = NoChangeSchecule, m_num_trials = 1, m_cumm_reward = 1,
             m_thetas = [1 / 2, 3 / 10], m_exp_cumm_reward = 1 / 2\<rparr>)
   \<and> \<not> (bestHindsightExpectedReturn
           \<lparr>m_change_schedule = NoChangeSchecule, m_num_trials = 1, m_cumm_reward = 1,
            m_thetas = [1 / 2, 3 / 10], m_exp_cumm_reward = 1 / 2\<rparr>
         \<ge> cummulativeReward
           \<lparr>m_change_schedule = NoChangeSchecule, m_num_trials = 1, m_cumm_reward = 1,
            m_thetas = [1 / 2, 3 / 10], m_exp_cumm_reward = 1 / 2\<rparr>)"
  by (simp add: StochasticBanditProblem_init_def env_reset_def pull_def Let_def bestArm_def
      bestHindsightExpectedReturn_def cummulativeReward_def numeral_2_eq_2 upt_rec)

end
